theory Spec2Isabelle
  imports Main "HOL-Library.AList"
begin

section \<open>The insertion-ordered Map of the host language\<close>

text \<open>
  \<^verbatim>\<open>LRUCache\<close> in \<^verbatim>\<open>index.js\<close> keeps its entries in a JavaScript \<^verbatim>\<open>Map\<close>, whose
  iteration order is the insertion order of the keys. The Map is an association list,
  oldest insertion first, with pairwise distinct keys. \<^verbatim>\<open>Map.set\<close> on a key that is
  present replaces the value where it stands; on a new key it appends. \<^verbatim>\<open>Map.delete\<close>
  on a key that is absent does nothing.
\<close>

type_synonym ('k, 'v) jsmap = "('k \<times> 'v) list"

definition Map_get :: "('k, 'v) jsmap \<Rightarrow> 'k \<Rightarrow> 'v option" where
  "Map_get m k = map_of m k"

definition Map_has :: "('k, 'v) jsmap \<Rightarrow> 'k \<Rightarrow> bool" where
  "Map_has m k = (map_of m k \<noteq> None)"

definition Map_delete :: "('k, 'v) jsmap \<Rightarrow> 'k \<Rightarrow> ('k, 'v) jsmap" where
  "Map_delete m k = AList.delete k m"

definition Map_set :: "('k, 'v) jsmap \<Rightarrow> 'k \<Rightarrow> 'v \<Rightarrow> ('k, 'v) jsmap" where
  "Map_set m k v = AList.update k v m"

definition Map_size :: "('k, 'v) jsmap \<Rightarrow> nat" where
  "Map_size m = length m"

text \<open>
  \<^verbatim>\<open>m.keys().next().value\<close>: the first key in iteration order, \<^verbatim>\<open>undefined\<close> (here
  \<open>None\<close>) on an empty Map.
\<close>

definition Map_first_key :: "('k, 'v) jsmap \<Rightarrow> 'k option" where
  "Map_first_key m = (case m of [] \<Rightarrow> None | (k, _) # _ \<Rightarrow> Some k)"

lemmas Map_defs = Map_get_def Map_has_def Map_delete_def Map_set_def Map_size_def
  Map_first_key_def


section \<open>The TTL-LRU cache (\<^verbatim>\<open>class LRUCache\<close>)\<close>

text \<open>
  An entry is \<^verbatim>\<open>{value, timestamp}\<close>; the locators only ever store booleans. The
  timestamp is a reading of \<^verbatim>\<open>Date.now()\<close>, wall-clock milliseconds, an integer.
\<close>

record entry =
  entry_value :: bool
  timestamp :: int

record LRUCache =
  maxSize :: nat
  ttl :: int
  cache :: "(string, entry) jsmap"

text \<open>\<^verbatim>\<open>constructor(maxSize = 500, ttl = 5000)\<close>\<close>

definition LRUCache_new :: "nat \<Rightarrow> int \<Rightarrow> LRUCache" where
  "LRUCache_new n t = \<lparr>maxSize = n, ttl = t, cache = []\<rparr>"

text \<open>
  \<^verbatim>\<open>get(key)\<close>. The argument \<open>now\<close> is what \<^verbatim>\<open>Date.now()\<close> returns when the method
  reads it (it reads it only when the key has an entry). The result \<open>None\<close> is
  \<^verbatim>\<open>undefined\<close>.
\<close>

definition LRUCache_get :: "int \<Rightarrow> string \<Rightarrow> LRUCache \<Rightarrow> bool option \<times> LRUCache" where
  "LRUCache_get now key c =
     (case Map_get (cache c) key of
        None \<Rightarrow> (None, c)
      | Some e \<Rightarrow>
          if now - timestamp e > ttl c
          then (None, c\<lparr>cache := Map_delete (cache c) key\<rparr>)
          else (Some (entry_value e),
                c\<lparr>cache := Map_set (Map_delete (cache c) key) key e\<rparr>))"

text \<open>
  \<^verbatim>\<open>set(key, value)\<close>. On an empty Map at capacity (possible only with
  \<^verbatim>\<open>maxSize = 0\<close>) the first key is \<^verbatim>\<open>undefined\<close> and deleting it does nothing.
\<close>

definition LRUCache_set :: "int \<Rightarrow> string \<Rightarrow> bool \<Rightarrow> LRUCache \<Rightarrow> LRUCache" where
  "LRUCache_set now key v c =
     (let m = (if Map_has (cache c) key then Map_delete (cache c) key
               else if Map_size (cache c) \<ge> maxSize c
               then (case Map_first_key (cache c) of
                       None \<Rightarrow> cache c
                     | Some firstKey \<Rightarrow> Map_delete (cache c) firstKey)
               else cache c)
      in c\<lparr>cache := Map_set m key \<lparr>entry_value = v, timestamp = now\<rparr>\<rparr>)"

definition LRUCache_clear :: "LRUCache \<Rightarrow> LRUCache" where
  "LRUCache_clear c = c\<lparr>cache := []\<rparr>"

text \<open>A sequence of method calls on one cache, each with its own clock reading.\<close>

datatype cache_op = Get string | Set string bool | Clear

fun apply_op :: "LRUCache \<Rightarrow> int \<times> cache_op \<Rightarrow> LRUCache" where
  "apply_op c (now, Get key) = snd (LRUCache_get now key c)"
| "apply_op c (now, Set key v) = LRUCache_set now key v c"
| "apply_op c (now, Clear) = LRUCache_clear c"

definition run_ops :: "LRUCache \<Rightarrow> (int \<times> cache_op) list \<Rightarrow> LRUCache" where
  "run_ops c ops = foldl apply_op c ops"

text \<open>The keys of a cache in iteration order, least recently used first.\<close>

definition keys_of :: "LRUCache \<Rightarrow> string list" where
  "keys_of c = map fst (cache c)"

text \<open>The Map invariant (distinct keys) together with the capacity bound.\<close>

definition cache_inv :: "LRUCache \<Rightarrow> bool" where
  "cache_inv c \<longleftrightarrow> distinct (keys_of c) \<and> length (cache c) \<le> maxSize c"


section \<open>Collaborators: paths, the filesystem, the clock\<close>

text \<open>
  What \<^verbatim>\<open>fs.Stats\<close> offers the type matcher: \<^verbatim>\<open>isFile()\<close> and \<^verbatim>\<open>isDirectory()\<close>.
\<close>

record Stats =
  isFile :: bool
  isDirectory :: bool

text \<open>
  What a metadata probe of one path can do: report that there is no such entry
  (\<^verbatim>\<open>ENOENT\<close>), fail with another error code (\<^verbatim>\<open>EACCES\<close>, \<^verbatim>\<open>ELOOP\<close>, ...), or
  deliver the metadata.
\<close>

datatype stat_outcome = NoEntry | Failure string | Found Stats

datatype error = Error string | TypeError | SystemError string

text \<open>
  The Node.js functions the module imports, as parameters: \<^verbatim>\<open>path.isAbsolute\<close>,
  \<^verbatim>\<open>path.resolve\<close>, \<^verbatim>\<open>fileURLToPath\<close>, the filesystem as seen by \<^verbatim>\<open>stat\<close> (following
  symbolic links) and by \<^verbatim>\<open>lstat\<close> (not following them), and the wall clock:
  \<open>Date_now env n\<close> is what the \<open>n\<close>-th call of \<^verbatim>\<open>Date.now()\<close> returns. The readings
  are arbitrary integers; nothing makes them increase.
\<close>

record env =
  isAbsolute :: "string \<Rightarrow> bool"
  resolve :: "string \<Rightarrow> string \<Rightarrow> string"
  fileURLToPath :: "string \<Rightarrow> string"
  stat :: "string \<Rightarrow> stat_outcome"
  lstat :: "string \<Rightarrow> stat_outcome"
  Date_now :: "nat \<Rightarrow> int"

text \<open>
  \<^verbatim>\<open>fs.statSync(p, {throwIfNoEntry: false})\<close> returns \<^verbatim>\<open>undefined\<close> for a missing entry and
  throws on any other error; \<^verbatim>\<open>fsPromises.stat(p)\<close> rejects in both cases. The flag
  chooses between the \<^verbatim>\<open>stat\<close> and the \<^verbatim>\<open>lstat\<close> variant, as
  \<^verbatim>\<open>allowSymlinks ? fs.statSync : fs.lstatSync\<close> does.
\<close>

definition statSync :: "env \<Rightarrow> bool \<Rightarrow> string \<Rightarrow> error + Stats option" where
  "statSync env follow p =
     (case (if follow then stat env p else lstat env p) of
        NoEntry \<Rightarrow> Inr None
      | Failure code \<Rightarrow> Inl (SystemError code)
      | Found st \<Rightarrow> Inr (Some st))"

definition statPromise :: "env \<Rightarrow> bool \<Rightarrow> string \<Rightarrow> error + Stats" where
  "statPromise env follow p =
     (case (if follow then stat env p else lstat env p) of
        NoEntry \<Rightarrow> Inl (SystemError ''ENOENT'')
      | Failure code \<Rightarrow> Inl (SystemError code)
      | Found st \<Rightarrow> Inr st)"

datatype urlOrPath = PathString string | URL string

definition toPath :: "env \<Rightarrow> urlOrPath \<Rightarrow> string" where
  "toPath env urlOrPath =
     (case urlOrPath of URL u \<Rightarrow> fileURLToPath env u | PathString p \<Rightarrow> p)"


section \<open>Type selector and type matcher\<close>

definition typeMappings :: "(string \<times> (Stats \<Rightarrow> bool)) list" where
  "typeMappings = [(''directory'', isDirectory), (''file'', isFile)]"

definition checkType :: "string \<Rightarrow> error + unit" where
  "checkType type =
     (if type = ''both'' \<or> map_of typeMappings type \<noteq> None then Inr ()
      else Inl (Error (''Invalid type specified: '' @ type)))"

text \<open>
  \<^verbatim>\<open>stat[typeMappings[type]]()\<close> on a selector that is not a key of the table calls
  \<^verbatim>\<open>undefined\<close>, a \<^verbatim>\<open>TypeError\<close>.
\<close>

definition matchType :: "string \<Rightarrow> Stats \<Rightarrow> error + bool" where
  "matchType type st =
     (if type = ''both'' then Inr (isFile st \<or> isDirectory st)
      else case map_of typeMappings type of
             None \<Rightarrow> Inl TypeError
           | Some method \<Rightarrow> Inr (method st))"


section \<open>Cache key\<close>

text \<open>The template literal turns a boolean into \<^verbatim>\<open>true\<close> or \<^verbatim>\<open>false\<close>.\<close>

definition String_of_bool :: "bool \<Rightarrow> string" where
  "String_of_bool b = (if b then ''true'' else ''false'')"

text \<open>\<^verbatim>\<open>`${resolvedPath}:${type}:${allowSymlinks}`\<close>\<close>

definition cacheKey :: "string \<Rightarrow> string \<Rightarrow> bool \<Rightarrow> string" where
  "cacheKey resolvedPath type allowSymlinks =
     resolvedPath @ '':'' @ type @ '':'' @ String_of_bool allowSymlinks"


section \<open>The two global caches and the observable effects\<close>

text \<open>
  The module state is the pair of caches. Two more components make the effects of a call
  visible: \<open>clock\<close> counts the readings of \<^verbatim>\<open>Date.now()\<close> taken so far, and \<open>trace\<close>
  records, in order, every cache method call and every metadata probe issued.
\<close>

datatype cache_id = Negative | Positive

datatype event = CacheGet cache_id string | CacheSet cache_id string bool | Probe string

record world =
  negativeCache :: LRUCache
  statCache :: LRUCache
  clock :: nat
  trace :: "event list"

text \<open>
  \<^verbatim>\<open>const statCache = new LRUCache(500, 5000); const negativeCache = new LRUCache(500, 5000);\<close>
\<close>

definition initial_world :: world where
  "initial_world =
     \<lparr>negativeCache = LRUCache_new 500 5000, statCache = LRUCache_new 500 5000,
      clock = 0, trace = []\<rparr>"

definition the_cache :: "cache_id \<Rightarrow> world \<Rightarrow> LRUCache" where
  "the_cache cid w = (case cid of Negative \<Rightarrow> negativeCache w | Positive \<Rightarrow> statCache w)"

definition put_cache :: "cache_id \<Rightarrow> LRUCache \<Rightarrow> world \<Rightarrow> world" where
  "put_cache cid c w =
     (case cid of Negative \<Rightarrow> w\<lparr>negativeCache := c\<rparr> | Positive \<Rightarrow> w\<lparr>statCache := c\<rparr>)"

text \<open>
  A \<^verbatim>\<open>get\<close> on one of the global caches: it reads the clock only when the key has an
  entry. A \<^verbatim>\<open>set\<close> always reads the clock.
\<close>

definition cache_get :: "env \<Rightarrow> cache_id \<Rightarrow> string \<Rightarrow> world \<Rightarrow> bool option \<times> world" where
  "cache_get env cid key w =
     (let c = the_cache cid w;
          (r, c') = LRUCache_get (Date_now env (clock w)) key c;
          w' = put_cache cid c' w
      in (r, w'\<lparr>clock := (if Map_has (cache c) key then Suc (clock w) else clock w),
               trace := trace w @ [CacheGet cid key]\<rparr>))"

definition cache_set :: "env \<Rightarrow> cache_id \<Rightarrow> string \<Rightarrow> bool \<Rightarrow> world \<Rightarrow> world" where
  "cache_set env cid key v w =
     (let c' = LRUCache_set (Date_now env (clock w)) key v (the_cache cid w);
          w' = put_cache cid c' w
      in w'\<lparr>clock := Suc (clock w), trace := trace w @ [CacheSet cid key v]\<rparr>)"

definition probe :: "string \<Rightarrow> world \<Rightarrow> world" where
  "probe p w = w\<lparr>trace := trace w @ [Probe p]\<rparr>"


section \<open>The synchronous locator\<close>

text \<open>
  \<^verbatim>\<open>checkPathSync(resolvedPath, {cacheKey, type, statFunction, useCache})\<close>. The whole body
  is inside \<^verbatim>\<open>try\<close>; every exception lands in the \<^verbatim>\<open>catch\<close> branch.
\<close>

definition checkPathSync ::
  "env \<Rightarrow> string \<Rightarrow> string \<Rightarrow> string \<Rightarrow> bool \<Rightarrow> bool \<Rightarrow> world \<Rightarrow> bool \<times> world" where
  "checkPathSync env resolvedPath key type follow useCache w =
     (let w1 = probe resolvedPath w;
          negative = (False, if useCache then cache_set env Negative key False w1 else w1)
      in case statSync env follow resolvedPath of
           Inl err \<Rightarrow> negative
         | Inr None \<Rightarrow> negative
         | Inr (Some st) \<Rightarrow>
             (case matchType type st of
                Inl err \<Rightarrow> negative
              | Inr typeMatches \<Rightarrow>
                  if typeMatches
                  then (True, if useCache then cache_set env Positive key True w1 else w1)
                  else negative))"

subsection \<open>Options\<close>

text \<open>
  The options object after destructuring. \<open>concurrency = None\<close> is \<^verbatim>\<open>undefined\<close>, which
  the limiter takes as no bound.
\<close>

record options =
  cwd :: urlOrPath
  type :: string
  allowSymlinks :: bool
  concurrency :: "nat option"
  preserveOrder :: bool
  useCache :: bool

text \<open>The defaults of the destructuring pattern, for a given \<^verbatim>\<open>process.cwd()\<close>.\<close>

definition default_options :: "string \<Rightarrow> options" where
  "default_options process_cwd =
     \<lparr>cwd = PathString process_cwd, type = ''file'', allowSymlinks = True,
      concurrency = None, preserveOrder = True, useCache = True\<rparr>"


text \<open>
  The body of the \<^verbatim>\<open>for\<close> loop of \<^verbatim>\<open>locatePathSync\<close> for one candidate: \<open>True\<close> is
  \<^verbatim>\<open>return path_\<close>, \<open>False\<close> is going on to the next candidate.
\<close>

definition locatePathSync_body ::
  "env \<Rightarrow> options \<Rightarrow> string \<Rightarrow> string \<Rightarrow> world \<Rightarrow> bool \<times> world" where
  "locatePathSync_body env opts dir path' w =
     (let resolvedPath = (if isAbsolute env path' then path' else resolve env dir path');
          key = cacheKey resolvedPath (type opts) (allowSymlinks opts)
      in if useCache opts
         then (let (n, w1) = cache_get env Negative key w
               in if n = Some False then (False, w1)
                  else (let (cached, w2) = cache_get env Positive key w1
                        in case cached of
                             Some b \<Rightarrow> (b, w2)
                           | None \<Rightarrow>
                               checkPathSync env resolvedPath key (type opts)
                                 (allowSymlinks opts) (useCache opts) w2))
         else checkPathSync env resolvedPath key (type opts)
                (allowSymlinks opts) (useCache opts) w)"

fun locatePathSync_loop ::
  "env \<Rightarrow> options \<Rightarrow> string \<Rightarrow> string list \<Rightarrow> world \<Rightarrow> string option \<times> world" where
  "locatePathSync_loop env opts dir [] w = (None, w)"
| "locatePathSync_loop env opts dir (path' # paths) w =
     (let (found, w') = locatePathSync_body env opts dir path' w
      in if found then (Some path', w') else locatePathSync_loop env opts dir paths w')"

definition locatePathSync ::
  "env \<Rightarrow> string list \<Rightarrow> options \<Rightarrow> world \<Rightarrow> (error + string option) \<times> world" where
  "locatePathSync env paths opts w =
     (case checkType (type opts) of
        Inl err \<Rightarrow> (Inl err, w)
      | Inr _ \<Rightarrow>
          (let (r, w') = locatePathSync_loop env opts (toPath env (cwd opts)) paths w
           in (Inr r, w')))"


section \<open>The asynchronous locator\<close>

text \<open>
  The tester that \<^verbatim>\<open>locatePath\<close> hands to \<^verbatim>\<open>pLocate\<close> suspends once, at
  \<^verbatim>\<open>await statFunction(resolvedPath)\<close>. \<open>tester_begin\<close> is the code up to that point: it
  either settles from the caches or issues the probe and waits. \<open>tester_resume\<close> is the
  code after it, run when the probe has come back.
\<close>

datatype check = Returned bool | Awaiting string string

definition tester_begin ::
  "env \<Rightarrow> options \<Rightarrow> string \<Rightarrow> string \<Rightarrow> world \<Rightarrow> check \<times> world" where
  "tester_begin env opts dir path' w =
     (let resolvedPath = (if isAbsolute env path' then path' else resolve env dir path');
          key = cacheKey resolvedPath (type opts) (allowSymlinks opts)
      in if useCache opts
         then (let (n, w1) = cache_get env Negative key w
               in if n = Some False then (Returned False, w1)
                  else (let (cached, w2) = cache_get env Positive key w1
                        in case cached of
                             Some b \<Rightarrow> (Returned b, w2)
                           | None \<Rightarrow> (Awaiting resolvedPath key, probe resolvedPath w2)))
         else (Awaiting resolvedPath key, probe resolvedPath w))"

definition tester_resume ::
  "env \<Rightarrow> options \<Rightarrow> string \<Rightarrow> string \<Rightarrow> world \<Rightarrow> bool \<times> world" where
  "tester_resume env opts resolvedPath key w =
     (let negative = (False, if useCache opts then cache_set env Negative key False w else w)
      in case statPromise env (allowSymlinks opts) resolvedPath of
           Inl err \<Rightarrow> negative
         | Inr st \<Rightarrow>
             (case matchType (type opts) st of
                Inl err \<Rightarrow> negative
              | Inr result \<Rightarrow>
                  (result,
                   if useCache opts
                   then (if result then cache_set env Positive key result w
                         else cache_set env Negative key False w)
                   else w)))"

text \<open>
  Modelled from the spec: \<^verbatim>\<open>pLocate\<close>, imported from the package \<^verbatim>\<open>p-locate\<close>, whose
  code is not part of the module. The spec's concurrency protocol: at most
  \<^verbatim>\<open>concurrency\<close> checks run at once (no bound if unspecified); checks are started in
  list order as slots free up; with \<^verbatim>\<open>preserveOrder\<close> the candidate at index \<open>i\<close> is
  reported only once all checks at lower indices have settled as non-matches; without
  it the first check to settle true, by settlement time, wins; when every check has
  settled false the result is absent. Checks that are not needed for the result are not
  aborted.

  One check per candidate is \<open>Queued\<close>, \<open>Running\<close> (suspended at its probe) or
  \<open>Settled\<close>. A schedule is a list of steps: \<open>Start\<close> starts the first queued check if a
  slot is free, \<open>Finish i\<close> delivers the probe result to the running check \<open>i\<close>. A step
  that is not enabled leaves the state as it is.
\<close>

datatype task = Queued | Running string string | Settled bool

datatype step = Start | Finish nat

record pool =
  tasks :: "task list"
  first_true :: "nat option"
  pworld :: world

definition is_running :: "task \<Rightarrow> bool" where
  "is_running t = (case t of Running _ _ \<Rightarrow> True | _ \<Rightarrow> False)"

definition slot_free :: "nat option \<Rightarrow> task list \<Rightarrow> bool" where
  "slot_free limit ts =
     (case limit of None \<Rightarrow> True | Some n \<Rightarrow> length (filter is_running ts) < n)"

fun first_queued :: "task list \<Rightarrow> nat option" where
  "first_queued [] = None"
| "first_queued (t # ts) =
     (if t = Queued then Some 0 else map_option Suc (first_queued ts))"

definition settle :: "nat \<Rightarrow> bool \<Rightarrow> world \<Rightarrow> pool \<Rightarrow> pool" where
  "settle i b w s =
     s\<lparr>tasks := (tasks s)[i := Settled b],
       first_true := (if b \<and> first_true s = None then Some i else first_true s),
       pworld := w\<rparr>"

definition pLocate_step ::
  "env \<Rightarrow> options \<Rightarrow> string \<Rightarrow> string list \<Rightarrow> pool \<Rightarrow> step \<Rightarrow> pool" where
  "pLocate_step env opts dir paths s st =
     (case st of
        Start \<Rightarrow>
          (case first_queued (tasks s) of
             None \<Rightarrow> s
           | Some i \<Rightarrow>
               if slot_free (concurrency opts) (tasks s)
               then (case tester_begin env opts dir (paths ! i) (pworld s) of
                       (Returned b, w) \<Rightarrow> settle i b w s
                     | (Awaiting resolvedPath key, w) \<Rightarrow>
                         s\<lparr>tasks := (tasks s)[i := Running resolvedPath key], pworld := w\<rparr>)
               else s)
      | Finish i \<Rightarrow>
          if i < length (tasks s)
          then (case tasks s ! i of
                  Running resolvedPath key \<Rightarrow>
                    (let (b, w) = tester_resume env opts resolvedPath key (pworld s)
                     in settle i b w s)
                | _ \<Rightarrow> s)
          else s)"

definition pLocate_run ::
  "env \<Rightarrow> options \<Rightarrow> string \<Rightarrow> string list \<Rightarrow> step list \<Rightarrow> world \<Rightarrow> pool" where
  "pLocate_run env opts dir paths sched w =
     foldl (pLocate_step env opts dir paths)
       \<lparr>tasks = replicate (length paths) Queued, first_true = None, pworld = w\<rparr> sched"

text \<open>
  The state of the promise that \<^verbatim>\<open>pLocate\<close> returned. In order: the scan over the checks
  stops at the first one that has not settled.
\<close>

datatype 'a promise = Pending | Fulfilled 'a | Rejected error

fun in_order :: "string list \<Rightarrow> task list \<Rightarrow> string option promise" where
  "in_order (p # ps) (Settled b # ts) = (if b then Fulfilled (Some p) else in_order ps ts)"
| "in_order (p # ps) (t # ts) = Pending"
| "in_order _ _ = Fulfilled None"

definition all_settled_false :: "task list \<Rightarrow> bool" where
  "all_settled_false ts = list_all (\<lambda>t. t = Settled False) ts"

definition pLocate_promise :: "options \<Rightarrow> string list \<Rightarrow> pool \<Rightarrow> string option promise" where
  "pLocate_promise opts paths s =
     (if preserveOrder opts then in_order paths (tasks s)
      else case first_true s of
             Some i \<Rightarrow> Fulfilled (Some (paths ! i))
           | None \<Rightarrow> if all_settled_false (tasks s) then Fulfilled None else Pending)"

text \<open>
  \<^verbatim>\<open>locatePath(paths, options)\<close> under a schedule of its checks: the state of the returned
  promise and the module state after the schedule has run. An invalid type selector
  rejects the promise before anything else happens.
\<close>

definition locatePath ::
  "env \<Rightarrow> string list \<Rightarrow> options \<Rightarrow> step list \<Rightarrow> world \<Rightarrow> string option promise \<times> world" where
  "locatePath env paths opts sched w =
     (case checkType (type opts) of
        Inl err \<Rightarrow> (Rejected err, w)
      | Inr _ \<Rightarrow>
          (let s = pLocate_run env opts (toPath env (cwd opts)) paths sched w
           in (pLocate_promise opts paths s, pworld s)))"


section \<open>Notions used in the statements\<close>

text \<open>The probes among the events of a trace.\<close>

definition probes_of :: "event list \<Rightarrow> string list" where
  "probes_of evs = concat (map (\<lambda>e. case e of Probe p \<Rightarrow> [p] | _ \<Rightarrow> []) evs)"

definition is_cache_event :: "event \<Rightarrow> bool" where
  "is_cache_event e = (case e of Probe _ \<Rightarrow> False | _ \<Rightarrow> True)"

text \<open>
  What the filesystem says about one resolved path: whether a probe finds an entry of
  the requested type. Missing entries and failing probes count as no.
\<close>

definition fs_matches :: "env \<Rightarrow> options \<Rightarrow> string \<Rightarrow> bool" where
  "fs_matches env opts resolvedPath =
     (case (if allowSymlinks opts then stat env resolvedPath else lstat env resolvedPath) of
        Found st \<Rightarrow> (case matchType (type opts) st of Inr b \<Rightarrow> b | Inl _ \<Rightarrow> False)
      | _ \<Rightarrow> False)"

definition resolved :: "env \<Rightarrow> options \<Rightarrow> string \<Rightarrow> string" where
  "resolved env opts path' =
     (if isAbsolute env path' then path' else resolve env (toPath env (cwd opts)) path')"

definition key_of :: "env \<Rightarrow> options \<Rightarrow> string \<Rightarrow> string" where
  "key_of env opts path' = cacheKey (resolved env opts path') (type opts) (allowSymlinks opts)"

definition valid_type :: "string \<Rightarrow> bool" where
  "valid_type t \<longleftrightarrow> t = ''file'' \<or> t = ''directory'' \<or> t = ''both''"


section \<open>Concrete inputs\<close>

text \<open>A cache of capacity two that is full.\<close>

definition c2 :: LRUCache where
  "c2 = \<lparr>maxSize = 2, ttl = 5000,
          cache = [(''a'', \<lparr>entry_value = False, timestamp = 1\<rparr>),
                   (''b'', \<lparr>entry_value = False, timestamp = 2\<rparr>)]\<rparr>"


text \<open>The candidates a sequential scan looks at: all up to and including the first hit.\<close>

fun examined :: "('a \<Rightarrow> bool) \<Rightarrow> 'a list \<Rightarrow> 'a list" where
  "examined f [] = []"
| "examined f (p # ps) = p # (if f p then [] else examined f ps)"

text \<open>
  Every value in the positive cache is \<open>True\<close> and every value in the negative cache is
  \<open>False\<close>.
\<close>

definition values_ok :: "world \<Rightarrow> bool" where
  "values_ok w \<longleftrightarrow>
     list_all (\<lambda>(k, e). entry_value e) (cache (statCache w)) \<and>
     list_all (\<lambda>(k, e). \<not> entry_value e) (cache (negativeCache w))"

text \<open>
  The caches agree with the filesystem on the keys of one kind of query: a negative entry
  that says no belongs to a path a probe would reject, and a positive entry holds what a
  probe would answer.
\<close>

definition coherent :: "env \<Rightarrow> options \<Rightarrow> world \<Rightarrow> bool" where
  "coherent env opts w \<longleftrightarrow>
     (\<forall>rp e. map_of (cache (negativeCache w)) (cacheKey rp (type opts) (allowSymlinks opts)) = Some e
          \<longrightarrow> \<not> entry_value e \<longrightarrow> \<not> fs_matches env opts rp) \<and>
     (\<forall>rp e. map_of (cache (statCache w)) (cacheKey rp (type opts) (allowSymlinks opts)) = Some e
          \<longrightarrow> entry_value e = fs_matches env opts rp)"

text \<open>
  A small filesystem under \<^verbatim>\<open>/d\<close>: a file \<^verbatim>\<open>b\<close>, a directory \<^verbatim>\<open>dir\<close>, an entry
  \<^verbatim>\<open>locked\<close> whose probe is refused, nothing else. The clock starts at 6000 ms and
  advances by one millisecond per reading.
\<close>

definition fs1 :: "string \<Rightarrow> stat_outcome" where
  "fs1 p = (if p = ''/d/b'' then Found \<lparr>isFile = True, isDirectory = False\<rparr>
            else if p = ''/d/dir'' then Found \<lparr>isFile = False, isDirectory = True\<rparr>
            else if p = ''/d/locked'' then Failure ''EACCES''
            else NoEntry)"

definition env1 :: env where
  "env1 = \<lparr>isAbsolute = (\<lambda>p. take 1 p = ''/''), resolve = (\<lambda>d p. d @ ''/'' @ p),
           fileURLToPath = drop 7, stat = fs1, lstat = fs1,
           Date_now = (\<lambda>n. 6000 + int n)\<rparr>"

definition opts1 :: options where
  "opts1 = default_options ''/d''"

text \<open>
  What holds of every pool that a schedule can produce: one check per candidate, a
  running check carries the resolved path and the key of its candidate, and \<open>first_true\<close>
  names a check that settled true when there is one.
\<close>

definition pool_ok :: "env \<Rightarrow> options \<Rightarrow> string list \<Rightarrow> pool \<Rightarrow> bool" where
  "pool_ok env opts paths s \<longleftrightarrow>
     length (tasks s) = length paths \<and>
     (\<forall>i<length paths. \<forall>rp key. tasks s ! i = Running rp key \<longrightarrow>
         rp = resolved env opts (paths ! i) \<and> key = key_of env opts (paths ! i)) \<and>
     (case first_true s of
        Some i \<Rightarrow> i < length paths \<and> tasks s ! i = Settled True
      | None \<Rightarrow> Settled True \<notin> set (tasks s))"

text \<open>The number of checks that have been started.\<close>

definition started :: "task list \<Rightarrow> nat" where
  "started ts = length (takeWhile (\<lambda>t. t \<noteq> Queued) ts)"

text \<open>
  A state in which one key sits in both caches: the negative entry was written at time
  \<open>t\<close>, the positive one at 3000 ms.
\<close>

definition overlap :: "int \<Rightarrow> world" where
  "overlap t = initial_world
     \<lparr>negativeCache := (negativeCache initial_world)
        \<lparr>cache := [(''/d/b:file:true'', \<lparr>entry_value = False, timestamp = t\<rparr>)]\<rparr>,
      statCache := (statCache initial_world)
        \<lparr>cache := [(''/d/b:file:true'', \<lparr>entry_value = True, timestamp = 3000\<rparr>)]\<rparr>\<rparr>"

text \<open>
  Under any schedule, checks started from caches that agree with the filesystem settle with
  the filesystem's answer and leave caches that agree with it.
\<close>

definition answers_fs :: "env \<Rightarrow> options \<Rightarrow> string list \<Rightarrow> pool \<Rightarrow> bool" where
  "answers_fs env opts paths s \<longleftrightarrow>
     pool_ok env opts paths s \<and>
     (useCache opts \<longrightarrow> coherent env opts (pworld s)) \<and>
     (\<forall>i<length paths. \<forall>b. tasks s ! i = Settled b \<longrightarrow>
          b = fs_matches env opts (resolved env opts (paths ! i)))"

text \<open>The schedule that starts each check and waits for it before starting the next.\<close>

definition sequential :: "nat \<Rightarrow> step list" where
  "sequential n = concat (map (\<lambda>i. [Start, Finish i]) [0..<n])"

text \<open>
  A state whose negative cache still says that \<^verbatim>\<open>/d/b\<close> is no file, written at 1000 ms,
  before the file was created.
\<close>

definition stale1 :: world where
  "stale1 = initial_world
     \<lparr>negativeCache := (negativeCache initial_world)
        \<lparr>cache := [(''/d/b:file:true'', \<lparr>entry_value = False, timestamp = 1000\<rparr>)]\<rparr>\<rparr>"

text \<open>A probe of the path does not deliver metadata: no entry, or an error.\<close>

definition probe_fails :: "env \<Rightarrow> options \<Rightarrow> string \<Rightarrow> bool" where
  "probe_fails env opts rp =
     (case (if allowSymlinks opts then stat env rp else lstat env rp) of
        Found _ \<Rightarrow> False | _ \<Rightarrow> True)"

text \<open>The events a call has added to the trace.\<close>

definition new_events :: "world \<Rightarrow> world \<Rightarrow> event list" where
  "new_events w w' = drop (length (trace w)) (trace w')"


text \<open>The default options without the cache.\<close>

definition opts_nocache :: options where
  "opts_nocache = (default_options ''/d'')\<lparr>useCache := False\<rparr>"


text \<open>
  No entry expires: the readings of the clock lie within one lifetime of each other, and
  every entry in the cache was written within one lifetime before any of them.
\<close>

definition fresh_cache :: "env \<Rightarrow> LRUCache \<Rightarrow> bool" where
  "fresh_cache env c \<longleftrightarrow>
     (\<forall>n m. Date_now env n - Date_now env m \<le> ttl c) \<and>
     (\<forall>(k, e)\<in>set (cache c). \<forall>n. Date_now env n - timestamp e \<le> ttl c)"

definition fresh :: "env \<Rightarrow> world \<Rightarrow> bool" where
  "fresh env w \<longleftrightarrow> fresh_cache env (negativeCache w) \<and> fresh_cache env (statCache w)"

text \<open>Both caches can take \<open>n\<close> more entries without evicting one.\<close>

definition room :: "nat \<Rightarrow> world \<Rightarrow> bool" where
  "room n w \<longleftrightarrow>
     length (cache (negativeCache w)) + n \<le> maxSize (negativeCache w) \<and>
     length (cache (statCache w)) + n \<le> maxSize (statCache w)"

text \<open>
  What the two caches say about a key when nothing has expired: no, if the negative cache
  holds \<open>False\<close>; otherwise whatever the positive cache holds, if anything.
\<close>

definition says_no :: "world \<Rightarrow> string \<Rightarrow> bool" where
  "says_no w k =
     (case map_of (cache (negativeCache w)) k of Some e \<Rightarrow> \<not> entry_value e | None \<Rightarrow> False)"

definition cached_answer :: "world \<Rightarrow> string \<Rightarrow> bool option" where
  "cached_answer w k =
     (if says_no w k then Some False
      else map_option entry_value (map_of (cache (statCache w)) k))"

text \<open>The answer a candidate gets: from the caches if they have one, else from a probe.\<close>

definition ans :: "env \<Rightarrow> options \<Rightarrow> world \<Rightarrow> string \<Rightarrow> bool" where
  "ans env opts w p =
     (case cached_answer w (key_of env opts p) of
        Some b \<Rightarrow> b
      | None \<Rightarrow> fs_matches env opts (resolved env opts p))"

text \<open>The checks of a pool that have not settled, counted; and a pool all settled.\<close>

definition unsettled :: "task \<Rightarrow> nat" where
  "unsettled t = (case t of Settled _ \<Rightarrow> 0 | _ \<Rightarrow> 1)"

definition pending :: "task list \<Rightarrow> nat" where
  "pending ts = sum_list (map unsettled ts)"

definition all_settled :: "task list \<Rightarrow> bool" where
  "all_settled ts = list_all (\<lambda>t. unsettled t = 0) ts"

text \<open>
  The pool of a first call that started in state \<open>w0\<close> with fresh caches and room: a
  settled check has the answer its candidate had in \<open>w0\<close> and its key is now cached; a
  running check belongs to its candidate, and the caches are silent on its key or agree
  with the filesystem; the caches have room for the checks still to settle.
\<close>

definition task_ok ::
  "env \<Rightarrow> options \<Rightarrow> string list \<Rightarrow> world \<Rightarrow> world \<Rightarrow> nat \<Rightarrow> task \<Rightarrow> bool" where
  "task_ok env opts paths w0 w i t =
     (case t of
        Queued \<Rightarrow> True
      | Running rp k \<Rightarrow>
          rp = resolved env opts (paths ! i) \<and> k = key_of env opts (paths ! i) \<and>
          (cached_answer w k = None \<or> cached_answer w k = Some (fs_matches env opts rp))
      | Settled b \<Rightarrow>
          b = ans env opts w0 (paths ! i) \<and>
          cached_answer w (key_of env opts (paths ! i)) \<noteq> None)"

definition first_run :: "env \<Rightarrow> options \<Rightarrow> string list \<Rightarrow> world \<Rightarrow> pool \<Rightarrow> bool" where
  "first_run env opts paths w0 s \<longleftrightarrow>
     length (tasks s) = length paths \<and>
     fresh env (pworld s) \<and>
     ans env opts (pworld s) = ans env opts w0 \<and>
     room (pending (tasks s)) (pworld s) \<and>
     (\<forall>i<length paths. task_ok env opts paths w0 (pworld s) i (tasks s ! i))"

text \<open>
  The pool of a call that started in state \<open>w1\<close> with fresh caches that know the key of
  every candidate: no check ever waits for a probe, and the caches answer as in \<open>w1\<close>.
\<close>

definition second_run :: "env \<Rightarrow> options \<Rightarrow> string list \<Rightarrow> world \<Rightarrow> pool \<Rightarrow> bool" where
  "second_run env opts paths w1 s \<longleftrightarrow>
     length (tasks s) = length paths \<and>
     fresh env (pworld s) \<and>
     cached_answer (pworld s) = cached_answer w1 \<and>
     probes_of (trace (pworld s)) = probes_of (trace w1) \<and>
     (\<forall>i<length paths. case tasks s ! i of
                          Queued \<Rightarrow> True
                        | Running rp k \<Rightarrow> False
                        | Settled b \<Rightarrow> b = ans env opts w1 (paths ! i))"

text \<open>
  The same filesystem with a clock that advances by one millisecond per reading for four
  seconds and then stands still, and with a clock that stands still throughout.
\<close>

definition env2 :: env where
  "env2 = env1\<lparr>Date_now := (\<lambda>n. 6000 + int (min n 4000))\<rparr>"

definition env3 :: env where
  "env3 = env1\<lparr>Date_now := (\<lambda>n. 6000)\<rparr>"

text \<open>501 candidates, none of which exists: \<^verbatim>\<open>x\<close>, \<^verbatim>\<open>xx\<close>, \<^verbatim>\<open>xxx\<close>, ...\<close>

definition cands501 :: "string list" where
  "cands501 = map (\<lambda>n. replicate (Suc n) CHR ''x'') [0..<501]"


section \<open>The synchronous locator as the spec describes it\<close>

text \<open>
  Written from the spec, sections 3, 4.3 and 4.4, to compare the code with. The
  definitions below use nothing of the locator's own code (\<open>matchType\<close>, \<open>cacheKey\<close>,
  \<open>checkPathSync\<close>, the loop and its body): they use the collaborators, the lookup and the
  store of the two caches, and the record of a probe.

  The type matcher (section 4.3): for \<^verbatim>\<open>both\<close>, a regular file or a directory; for
  \<^verbatim>\<open>file\<close> and \<^verbatim>\<open>directory\<close>, exactly that kind.
\<close>

definition spec_type_matches :: "string \<Rightarrow> Stats \<Rightarrow> bool" where
  "spec_type_matches t st =
     (if t = ''both'' then isFile st \<or> isDirectory st
      else if t = ''file'' then isFile st
      else if t = ''directory'' then isDirectory st
      else False)"

text \<open>
  Steps 5 and 6 of section 4.4: a metadata probe, following symbolic links or not as the
  flag says; a path that does not exist is a non-match, and so is a probe that fails for
  any other reason.
\<close>

definition spec_probe :: "env \<Rightarrow> options \<Rightarrow> string \<Rightarrow> bool" where
  "spec_probe env opts rp =
     (case (if allowSymlinks opts then stat env rp else lstat env rp) of
        NoEntry \<Rightarrow> False
      | Failure code \<Rightarrow> False
      | Found st \<Rightarrow> spec_type_matches (type opts) st)"

text \<open>
  Steps 1 to 8 for one candidate. Step 1 resolves the candidate (an absolute path passes
  through), step 2 builds the query key of section 3, step 3 skips the candidate when the
  negative cache answers no, step 4 takes the answer of the positive cache when it has
  one, steps 5 and 6 probe, step 7 records a match in the positive cache and a non-match
  in the negative cache. Without caching only the probe happens. The result is whether
  the candidate matches, and the module state after the check.
\<close>

definition spec_check :: "env \<Rightarrow> options \<Rightarrow> world \<Rightarrow> string \<Rightarrow> bool \<times> world" where
  "spec_check env opts w p =
     (let rp = (if isAbsolute env p then p else resolve env (toPath env (cwd opts)) p);
          k = rp @ '':'' @ type opts @ '':'' @ (if allowSymlinks opts then ''true'' else ''false'')
      in if \<not> useCache opts then (spec_probe env opts rp, probe rp w)
         else case cache_get env Negative k w of
                (Some False, w1) \<Rightarrow> (False, w1)
              | (_, w1) \<Rightarrow>
                  (case cache_get env Positive k w1 of
                     (Some b, w2) \<Rightarrow> (b, w2)
                   | (None, w2) \<Rightarrow>
                       (let m = spec_probe env opts rp
                        in (m, cache_set env (if m then Positive else Negative) k m
                                 (probe rp w2)))))"

text \<open>
  The scan in list order: the module state in which candidate \<open>i\<close> is examined, after the
  checks of all candidates before it, and whether candidate \<open>i\<close> matches there.
\<close>

definition spec_state_before :: "env \<Rightarrow> options \<Rightarrow> string list \<Rightarrow> world \<Rightarrow> nat \<Rightarrow> world" where
  "spec_state_before env opts paths w i =
     foldl (\<lambda>w p. snd (spec_check env opts w p)) w (take i paths)"

definition spec_matches_at :: "env \<Rightarrow> options \<Rightarrow> string list \<Rightarrow> world \<Rightarrow> nat \<Rightarrow> bool" where
  "spec_matches_at env opts paths w i =
     fst (spec_check env opts (spec_state_before env opts paths w i) (paths ! i))"

text \<open>
  \<^verbatim>\<open>locateSync\<close>: an invalid type selector fails before anything else; otherwise the
  candidate at the lowest matching index is returned as the caller wrote it, with the
  state left by the checks up to and including it; without a match the result is absent
  and every candidate has been checked.
\<close>

definition spec_locateSync ::
  "env \<Rightarrow> string list \<Rightarrow> options \<Rightarrow> world \<Rightarrow> (error + string option) \<times> world" where
  "spec_locateSync env paths opts w =
     (if \<not> valid_type (type opts)
      then (Inl (Error (''Invalid type specified: '' @ type opts)), w)
      else case find (spec_matches_at env opts paths w) [0..<length paths] of
             None \<Rightarrow> (Inr None, spec_state_before env opts paths w (length paths))
           | Some i \<Rightarrow> (Inr (Some (paths ! i)), spec_state_before env opts paths w (Suc i)))"


section \<open>Facts about the cache\<close>

lemma update_after_delete:
  "AList.update k v (AList.delete k m) = AList.delete k m @ [(k, v)]"
  by (induction m) auto

lemma delete_head_distinct:
  "distinct (map fst ((k, e) # m)) \<Longrightarrow> AList.delete k ((k, e) # m) = m"
  by (simp add: rev_image_eqI)

lemma length_update_le: "length (AList.update k v m) \<le> Suc (length m)"
  by (induction m) auto

lemma length_delete_present:
  "map_of m k \<noteq> None \<Longrightarrow> length (AList.delete k m) < length m"
  by (induction m) (auto simp: le_imp_less_Suc AList.length_delete_le)

lemma LRUCache_get_fields [simp]:
  "maxSize (snd (LRUCache_get now key c)) = maxSize c"
  "ttl (snd (LRUCache_get now key c)) = ttl c"
  by (auto simp: LRUCache_get_def split: option.splits)

lemma LRUCache_set_fields [simp]:
  "maxSize (LRUCache_set now key v c) = maxSize c"
  "ttl (LRUCache_set now key v c) = ttl c"
  by (auto simp: LRUCache_set_def Let_def)

lemma distinct_get:
  "distinct (keys_of c) \<Longrightarrow> distinct (keys_of (snd (LRUCache_get now key c)))"
  by (auto simp: LRUCache_get_def keys_of_def Map_defs
      intro!: AList.distinct_update AList.distinct_delete split: option.splits)

lemma distinct_set:
  assumes "distinct (keys_of c)"
  shows "distinct (keys_of (LRUCache_set now key v c))"
proof -
  have d: "distinct (map fst (cache c))"
    using assms by (simp add: keys_of_def)
  have "distinct (map fst (Map_set (Map_delete (cache c) k) key e))" for k e
    unfolding Map_set_def Map_delete_def
    by (intro AList.distinct_update AList.distinct_delete d)
  moreover have "distinct (map fst (Map_set (cache c) key e))" for e
    unfolding Map_set_def by (intro AList.distinct_update d)
  ultimately show ?thesis
    by (simp add: LRUCache_set_def keys_of_def Let_def split: option.splits)
qed

lemma length_get_le:
  "length (cache (snd (LRUCache_get now key c))) \<le> length (cache c)"
proof (cases "map_of (cache c) key")
  case None
  then show ?thesis by (simp add: LRUCache_get_def Map_defs)
next
  case (Some e)
  have "length (AList.update key e (AList.delete key (cache c)))
          \<le> Suc (length (AList.delete key (cache c)))"
    by (rule length_update_le)
  moreover have "length (AList.delete key (cache c)) < length (cache c)"
    using Some by (intro length_delete_present) simp
  moreover have "length (AList.delete key (cache c)) \<le> length (cache c)"
    by (rule AList.length_delete_le)
  ultimately show ?thesis
    using Some by (simp add: LRUCache_get_def Map_defs)
qed

lemma length_set_le:
  assumes "distinct (keys_of c)" and "length (cache c) \<le> maxSize c" and "0 < maxSize c"
  shows "length (cache (LRUCache_set now key v c)) \<le> maxSize c"
proof (cases "map_of (cache c) key")
  case (Some e)
  have "length (AList.update key \<lparr>entry_value = v, timestamp = now\<rparr> (AList.delete key (cache c)))
          \<le> Suc (length (AList.delete key (cache c)))"
    by (rule length_update_le)
  moreover have "length (AList.delete key (cache c)) < length (cache c)"
    using Some by (intro length_delete_present) simp
  ultimately show ?thesis
    using Some assms by (simp add: LRUCache_set_def Map_defs)
next
  case None
  show ?thesis
  proof (cases "length (cache c) \<ge> maxSize c")
    case False
    then show ?thesis
      using None length_update_le [of key "\<lparr>entry_value = v, timestamp = now\<rparr>" "cache c"]
      by (simp add: LRUCache_set_def Map_defs Let_def)
  next
    case True
    then obtain k e m where m: "cache c = (k, e) # m"
      using assms(3) by (cases "cache c") auto
    have "AList.delete k ((k, e) # m) = m"
      using assms(1) unfolding keys_of_def m by (rule delete_head_distinct)
    then have "cache (LRUCache_set now key v c)
                 = AList.update key \<lparr>entry_value = v, timestamp = now\<rparr> m"
      using None True m by (simp add: LRUCache_set_def Map_defs)
    then show ?thesis
      using length_update_le [of key "\<lparr>entry_value = v, timestamp = now\<rparr>" m] assms(2) m
      by simp
  qed
qed

lemma cache_inv_get: "cache_inv c \<Longrightarrow> cache_inv (snd (LRUCache_get now key c))"
  unfolding cache_inv_def
  using distinct_get [of c now key] length_get_le [of now key c] by simp

lemma cache_inv_set:
  "0 < maxSize c \<Longrightarrow> cache_inv c \<Longrightarrow> cache_inv (LRUCache_set now key v c)"
  unfolding cache_inv_def
  using distinct_set [of c now key v] length_set_le [of c now key v] by simp

lemma cache_inv_clear: "cache_inv c \<Longrightarrow> cache_inv (LRUCache_clear c)"
  by (simp add: cache_inv_def LRUCache_clear_def keys_of_def)

lemma apply_op_fields [simp]:
  "maxSize (apply_op c op) = maxSize c" "ttl (apply_op c op) = ttl c"
  by (cases op; cases "snd op"; simp add: LRUCache_clear_def)+

lemma cache_inv_apply_op:
  "0 < maxSize c \<Longrightarrow> cache_inv c \<Longrightarrow> cache_inv (apply_op c op)"
  by (cases op; cases "snd op") (simp_all add: cache_inv_get cache_inv_set cache_inv_clear)

lemma cache_inv_run_ops:
  "0 < maxSize c \<Longrightarrow> cache_inv c \<Longrightarrow>
     cache_inv (run_ops c ops) \<and> maxSize (run_ops c ops) = maxSize c"
  unfolding run_ops_def
  by (induction ops arbitrary: c) (simp_all add: cache_inv_apply_op)

lemma update_absent: "map_of m k = None \<Longrightarrow> AList.update k v m = m @ [(k, v)]"
  by (induction m) (auto split: if_splits)


section \<open>The cache contract\<close>

text \<open>
  C3. \<^verbatim>\<open>set(key, value)\<close> on a Map with distinct keys: a key that is present is removed
  and appended again, so it ends in the most recently used position with the value and
  the clock reading of this call; a new key arriving at a cache that holds \<open>maxSize\<close>
  entries (or more) drops exactly the first entry in iteration order, the least recently
  used one, and is appended; a new key arriving below capacity is appended and nothing is
  dropped. After any sequence of \<^verbatim>\<open>get\<close>, \<^verbatim>\<open>set\<close> and \<^verbatim>\<open>clear\<close> calls on a cache
  created as \<^verbatim>\<open>new LRUCache(500, 5000)\<close> the size is at most 500.
\<close>

theorem LRUCache_set_cases:
  assumes "distinct (keys_of c)"
  shows "(Map_has (cache c) key \<longrightarrow>
            cache (LRUCache_set now key v c)
              = Map_delete (cache c) key @ [(key, \<lparr>entry_value = v, timestamp = now\<rparr>)]) \<and>
         (\<not> Map_has (cache c) key \<and> Map_size (cache c) \<ge> maxSize c \<and> 0 < maxSize c \<longrightarrow>
            cache (LRUCache_set now key v c)
              = tl (cache c) @ [(key, \<lparr>entry_value = v, timestamp = now\<rparr>)]) \<and>
         (\<not> Map_has (cache c) key \<and> Map_size (cache c) < maxSize c \<longrightarrow>
            cache (LRUCache_set now key v c)
              = cache c @ [(key, \<lparr>entry_value = v, timestamp = now\<rparr>)]) \<and>
         (\<forall>ops. Map_size (cache (run_ops (LRUCache_new 500 5000) ops)) \<le> 500)"
proof (intro conjI impI allI)
  assume "Map_has (cache c) key"
  then show "cache (LRUCache_set now key v c)
      = Map_delete (cache c) key @ [(key, \<lparr>entry_value = v, timestamp = now\<rparr>)]"
    by (simp add: LRUCache_set_def Map_set_def Map_delete_def update_after_delete)
next
  assume a: "\<not> Map_has (cache c) key \<and> Map_size (cache c) \<ge> maxSize c \<and> 0 < maxSize c"
  then obtain k e m where m: "cache c = (k, e) # m"
    by (cases "cache c") (auto simp: Map_size_def)
  have del: "Map_delete (cache c) k = m"
    using assms unfolding keys_of_def m Map_delete_def by (rule delete_head_distinct)
  have "map_of m key = None"
    using a by (auto simp: m Map_has_def split: if_splits)
  then have "Map_set m key x = m @ [(key, x)]" for x
    unfolding Map_set_def by (rule update_absent)
  then show "cache (LRUCache_set now key v c)
      = tl (cache c) @ [(key, \<lparr>entry_value = v, timestamp = now\<rparr>)]"
    using a del by (simp add: LRUCache_set_def Map_first_key_def m)
next
  assume a: "\<not> Map_has (cache c) key \<and> Map_size (cache c) < maxSize c"
  then have "map_of (cache c) key = None"
    by (simp add: Map_has_def)
  then have "Map_set (cache c) key x = cache c @ [(key, x)]" for x
    unfolding Map_set_def by (rule update_absent)
  then show "cache (LRUCache_set now key v c)
      = cache c @ [(key, \<lparr>entry_value = v, timestamp = now\<rparr>)]"
    using a by (simp add: LRUCache_set_def)
next
  fix ops
  have "cache_inv (LRUCache_new 500 5000)"
    by (simp add: cache_inv_def LRUCache_new_def keys_of_def)
  then have "cache_inv (run_ops (LRUCache_new 500 5000) ops)
      \<and> maxSize (run_ops (LRUCache_new 500 5000) ops) = maxSize (LRUCache_new 500 5000)"
    by (intro cache_inv_run_ops) (simp_all add: LRUCache_new_def)
  then show "Map_size (cache (run_ops (LRUCache_new 500 5000) ops)) \<le> 500"
    by (simp add: cache_inv_def LRUCache_new_def Map_size_def)
qed

theorem LRUCache_set_cases_witness:
  "distinct (keys_of c2) \<and> Map_has (cache c2) ''a'' \<and>
   cache (LRUCache_set 7 ''a'' True c2)
     = [(''b'', \<lparr>entry_value = False, timestamp = 2\<rparr>),
        (''a'', \<lparr>entry_value = True, timestamp = 7\<rparr>)] \<and>
   \<not> Map_has (cache c2) ''c'' \<and> Map_size (cache c2) \<ge> maxSize c2 \<and> 0 < maxSize c2 \<and>
   cache (LRUCache_set 7 ''c'' True c2)
     = [(''b'', \<lparr>entry_value = False, timestamp = 2\<rparr>),
        (''c'', \<lparr>entry_value = True, timestamp = 7\<rparr>)] \<and>
   Map_size (cache (run_ops (LRUCache_new 500 5000) [(1, Set ''a'' True), (2, Get ''a'')])) \<le> 500"
proof -
  have d: "distinct (keys_of c2)"
    by (simp add: keys_of_def c2_def)
  show ?thesis
    using d LRUCache_set_cases [OF d, of "''a''" 7 True]
      LRUCache_set_cases [OF d, of "''c''" 7 True]
    by (simp add: c2_def Map_defs)
qed

text \<open>
  C4. \<^verbatim>\<open>get(key)\<close>: a missing key gives \<^verbatim>\<open>undefined\<close> and leaves the cache as it is; an
  entry whose age \<open>now - timestamp\<close> exceeds \<open>ttl\<close> is deleted and the result is
  \<^verbatim>\<open>undefined\<close>; otherwise the entry is moved behind all others and its value returned,
  and the entry that is moved is the one that was stored, timestamp included.
\<close>

theorem LRUCache_get_cases:
  "(Map_get (cache c) key = None \<longrightarrow> LRUCache_get now key c = (None, c)) \<and>
   (\<forall>e. Map_get (cache c) key = Some e \<and> now - timestamp e > ttl c \<longrightarrow>
        LRUCache_get now key c = (None, c\<lparr>cache := Map_delete (cache c) key\<rparr>) \<and>
        Map_get (Map_delete (cache c) key) key = None) \<and>
   (\<forall>e. Map_get (cache c) key = Some e \<and> \<not> now - timestamp e > ttl c \<longrightarrow>
        LRUCache_get now key c
          = (Some (entry_value e), c\<lparr>cache := Map_delete (cache c) key @ [(key, e)]\<rparr>))"
  by (simp add: LRUCache_get_def Map_defs update_after_delete AList.delete_conv')

theorem LRUCache_get_cases_witness:
  "Map_get (cache c2) ''z'' = None \<and> LRUCache_get 9 ''z'' c2 = (None, c2) \<and>
   Map_get (cache c2) ''a'' = Some \<lparr>entry_value = False, timestamp = 1\<rparr> \<and>
   LRUCache_get 5002 ''a'' c2
     = (None, c2\<lparr>cache := [(''b'', \<lparr>entry_value = False, timestamp = 2\<rparr>)]\<rparr>) \<and>
   LRUCache_get 5001 ''a'' c2
     = (Some False, c2\<lparr>cache := [(''b'', \<lparr>entry_value = False, timestamp = 2\<rparr>),
                                   (''a'', \<lparr>entry_value = False, timestamp = 1\<rparr>)]\<rparr>)"
  using LRUCache_get_cases [of c2 "''z''" 9] LRUCache_get_cases [of c2 "''a''" 5002]
    LRUCache_get_cases [of c2 "''a''" 5001]
  by (simp add: c2_def Map_defs)


section \<open>The cache key\<close>

lemma cacheKey_rev:
  "rev (cacheKey p t s) = rev (String_of_bool s) @ CHR '':'' # rev t @ CHR '':'' # rev p"
  by (simp add: cacheKey_def)

lemma cacheKey_inj:
  assumes "valid_type t1" and "valid_type t2" and eq: "cacheKey p1 t1 s1 = cacheKey p2 t2 s2"
  shows "p1 = p2 \<and> t1 = t2 \<and> s1 = s2"
proof -
  have "rev (cacheKey p1 t1 s1) = rev (cacheKey p2 t2 s2)"
    using eq by simp
  then have r: "rev (String_of_bool s1) @ CHR '':'' # rev t1 @ CHR '':'' # rev p1
           = rev (String_of_bool s2) @ CHR '':'' # rev t2 @ CHR '':'' # rev p2"
    by (simp only: cacheKey_rev)
  from assms(1,2) r show ?thesis
    unfolding valid_type_def String_of_bool_def
    by (cases s1; cases s2) auto
qed

text \<open>
  C7. The key is the resolved path, the type selector and the symlink flag joined by
  colons. It is a function of these three alone, and for the three valid selectors and a
  boolean flag two keys are equal exactly when all three components are equal.
\<close>

theorem cacheKey_distinguishes:
  assumes "valid_type t1" and "valid_type t2"
  shows "cacheKey p t1 s = p @ '':'' @ t1 @ '':'' @ (if s then ''true'' else ''false'') \<and>
     (cacheKey p1 t1 s1 = cacheKey p2 t2 s2) = (p1 = p2 \<and> t1 = t2 \<and> s1 = s2)"
proof
  show "cacheKey p t1 s = p @ '':'' @ t1 @ '':'' @ (if s then ''true'' else ''false'')"
    by (simp add: cacheKey_def String_of_bool_def)
  show "(cacheKey p1 t1 s1 = cacheKey p2 t2 s2) = (p1 = p2 \<and> t1 = t2 \<and> s1 = s2)"
    using cacheKey_inj [OF assms] by blast
qed

theorem cacheKey_distinguishes_witness:
  "valid_type ''file'' \<and> valid_type ''directory'' \<and>
   cacheKey ''/d/a'' ''file'' True = ''/d/a:file:true'' \<and>
   cacheKey ''/d/a'' ''file'' True \<noteq> cacheKey ''/d/a'' ''directory'' True \<and>
   cacheKey ''/d/a'' ''file'' True \<noteq> cacheKey ''/d/a'' ''file'' False \<and>
   cacheKey ''/d/a:file'' ''directory'' True \<noteq> cacheKey ''/d/a'' ''file'' True"
  using cacheKey_distinguishes
      [of "''file''" "''directory''" "''/d/a''" True "''/d/a''" True "''/d/a''" True]
    cacheKey_distinguishes
      [of "''file''" "''file''" "''/d/a''" True "''/d/a''" True "''/d/a''" False]
    cacheKey_distinguishes
      [of "''directory''" "''file''" "''/d/a''" True "''/d/a:file''" True "''/d/a''" True]
  by (simp add: valid_type_def cacheKey_def String_of_bool_def)

section \<open>Facts about the module state\<close>

lemma cache_get_Negative [simp]:
  "fst (cache_get env Negative key w)
     = fst (LRUCache_get (Date_now env (clock w)) key (negativeCache w))"
  "negativeCache (snd (cache_get env Negative key w))
     = snd (LRUCache_get (Date_now env (clock w)) key (negativeCache w))"
  "statCache (snd (cache_get env Negative key w)) = statCache w"
  by (simp_all add: cache_get_def the_cache_def put_cache_def Let_def split: prod.splits)

lemma cache_get_Positive [simp]:
  "fst (cache_get env Positive key w)
     = fst (LRUCache_get (Date_now env (clock w)) key (statCache w))"
  "statCache (snd (cache_get env Positive key w))
     = snd (LRUCache_get (Date_now env (clock w)) key (statCache w))"
  "negativeCache (snd (cache_get env Positive key w)) = negativeCache w"
  by (simp_all add: cache_get_def the_cache_def put_cache_def Let_def split: prod.splits)

lemma cache_get_effects [simp]:
  "trace (snd (cache_get env cid key w)) = trace w @ [CacheGet cid key]"
  "clock (snd (cache_get env cid key w))
     = (if Map_has (cache (the_cache cid w)) key then Suc (clock w) else clock w)"
  by (cases cid; simp add: cache_get_def the_cache_def put_cache_def Let_def split: prod.splits)+

lemma cache_set_Negative [simp]:
  "negativeCache (cache_set env Negative key v w)
     = LRUCache_set (Date_now env (clock w)) key v (negativeCache w)"
  "statCache (cache_set env Negative key v w) = statCache w"
  by (simp_all add: cache_set_def the_cache_def put_cache_def Let_def)

lemma cache_set_Positive [simp]:
  "statCache (cache_set env Positive key v w)
     = LRUCache_set (Date_now env (clock w)) key v (statCache w)"
  "negativeCache (cache_set env Positive key v w) = negativeCache w"
  by (simp_all add: cache_set_def the_cache_def put_cache_def Let_def)

lemma cache_set_effects [simp]:
  "trace (cache_set env cid key v w) = trace w @ [CacheSet cid key v]"
  "clock (cache_set env cid key v w) = Suc (clock w)"
  by (cases cid; simp add: cache_set_def the_cache_def put_cache_def Let_def)+

lemma probe_fields [simp]:
  "negativeCache (probe p w) = negativeCache w" "statCache (probe p w) = statCache w"
  "clock (probe p w) = clock w" "trace (probe p w) = trace w @ [Probe p]"
  by (simp_all add: probe_def)

lemma LRUCache_get_Some:
  "fst (LRUCache_get now key c) = Some b \<Longrightarrow>
     \<exists>e. map_of (cache c) key = Some e \<and> entry_value e = b \<and> \<not> now - timestamp e > ttl c"
  by (auto simp: LRUCache_get_def Map_defs split: option.splits if_splits)

lemma matchType_valid:
  "valid_type t \<Longrightarrow> matchType t st
     = Inr (if t = ''both'' then isFile st \<or> isDirectory st
            else if t = ''file'' then isFile st else isDirectory st)"
  by (auto simp: valid_type_def matchType_def typeMappings_def)

lemma checkPathSync_answer:
  "fst (checkPathSync env rp key (type opts) (allowSymlinks opts) uc w) = fs_matches env opts rp"
  by (simp add: checkPathSync_def statSync_def fs_matches_def Let_def
      split: stat_outcome.splits sum.splits)

lemma tester_resume_answer:
  "fst (tester_resume env opts rp key w) = fs_matches env opts rp"
  by (simp add: tester_resume_def statPromise_def fs_matches_def Let_def
      split: stat_outcome.splits sum.splits)

lemma body_resolved:
  "locatePathSync_body env opts (toPath env (cwd opts)) p w =
     (if useCache opts
      then (let (n, w1) = cache_get env Negative (key_of env opts p) w
            in if n = Some False then (False, w1)
               else (let (cached, w2) = cache_get env Positive (key_of env opts p) w1
                     in case cached of
                          Some b \<Rightarrow> (b, w2)
                        | None \<Rightarrow>
                            checkPathSync env (resolved env opts p) (key_of env opts p) (type opts)
                              (allowSymlinks opts) (useCache opts) w2))
      else checkPathSync env (resolved env opts p) (key_of env opts p) (type opts)
             (allowSymlinks opts) (useCache opts) w)"
  unfolding locatePathSync_body_def key_of_def resolved_def Let_def by (rule refl)

lemma checkType_valid: "valid_type t \<Longrightarrow> checkType t = Inr ()"
  by (auto simp: valid_type_def checkType_def typeMappings_def)

lemma checkType_invalid:
  "\<not> valid_type t \<Longrightarrow> checkType t = Inl (Error (''Invalid type specified: '' @ t))"
  by (auto simp: valid_type_def checkType_def typeMappings_def)

lemma locatePathSync_valid:
  "valid_type (type opts) \<Longrightarrow>
     locatePathSync env paths opts w
       = (Inr (fst (locatePathSync_loop env opts (toPath env (cwd opts)) paths w)),
          snd (locatePathSync_loop env opts (toPath env (cwd opts)) paths w))"
  by (simp add: locatePathSync_def checkType_valid split: prod.splits)

lemma locatePath_valid:
  "valid_type (type opts) \<Longrightarrow>
     locatePath env paths opts sched w
       = (pLocate_promise opts paths (pLocate_run env opts (toPath env (cwd opts)) paths sched w),
          pworld (pLocate_run env opts (toPath env (cwd opts)) paths sched w))"
  by (simp add: locatePath_def checkType_valid Let_def)

section \<open>Facts about the pool of checks\<close>

lemma first_queued_Some:
  "first_queued ts = Some i \<Longrightarrow> i < length ts \<and> ts ! i = Queued \<and> (\<forall>j<i. ts ! j \<noteq> Queued)"
proof (induction ts arbitrary: i)
  case Nil
  then show ?case by simp
next
  case (Cons t ts)
  show ?case
  proof (cases "t = Queued")
    case True
    then show ?thesis using Cons.prems by simp
  next
    case False
    then obtain k where k: "first_queued ts = Some k" "i = Suc k"
      using Cons.prems by auto
    then show ?thesis
      using Cons.IH [OF k(1)] False by (auto simp: less_Suc_eq_0_disj)
  qed
qed

lemma first_queued_None: "first_queued ts = None \<Longrightarrow> Queued \<notin> set ts"
  by (induction ts) (auto split: if_splits)

lemma pLocate_run_Nil:
  "pLocate_run env opts dir paths [] w
     = \<lparr>tasks = replicate (length paths) Queued, first_true = None, pworld = w\<rparr>"
  by (simp add: pLocate_run_def)

lemma pLocate_run_snoc:
  "pLocate_run env opts dir paths (sched @ [st]) w
     = pLocate_step env opts dir paths (pLocate_run env opts dir paths sched w) st"
  by (simp add: pLocate_run_def)

lemma pLocate_run_invariant:
  assumes "P \<lparr>tasks = replicate (length paths) Queued, first_true = None, pworld = w\<rparr>"
    and "\<And>s st. P s \<Longrightarrow> P (pLocate_step env opts dir paths s st)"
  shows "P (pLocate_run env opts dir paths sched w)"
proof (induction sched rule: rev_induct)
  case Nil
  then show ?case using assms(1) by (simp add: pLocate_run_Nil)
next
  case (snoc st sched)
  then show ?case using assms(2) by (simp add: pLocate_run_snoc)
qed

text \<open>The four things a step can do.\<close>

lemma pLocate_step_cases:
  obtains
    (idle) "pLocate_step env opts dir paths s st = s"
  | (returned) i b w' where "st = Start" "first_queued (tasks s) = Some i"
      "tester_begin env opts dir (paths ! i) (pworld s) = (Returned b, w')"
      "pLocate_step env opts dir paths s st = settle i b w' s"
  | (awaiting) i rp key w' where "st = Start" "first_queued (tasks s) = Some i"
      "tester_begin env opts dir (paths ! i) (pworld s) = (Awaiting rp key, w')"
      "pLocate_step env opts dir paths s st = s\<lparr>tasks := (tasks s)[i := Running rp key], pworld := w'\<rparr>"
  | (finished) i rp key b w' where "st = Finish i" "i < length (tasks s)"
      "tasks s ! i = Running rp key"
      "tester_resume env opts rp key (pworld s) = (b, w')"
      "pLocate_step env opts dir paths s st = settle i b w' s"
proof (cases st)
  case Start
  show ?thesis
  proof (cases "first_queued (tasks s)")
    case None
    then show ?thesis using Start idle by (simp add: pLocate_step_def)
  next
    case (Some i)
    show ?thesis
    proof (cases "slot_free (concurrency opts) (tasks s)")
      case False
      then show ?thesis using Start Some idle by (simp add: pLocate_step_def)
    next
      case True
      obtain c w' where c: "tester_begin env opts dir (paths ! i) (pworld s) = (c, w')"
        by (cases "tester_begin env opts dir (paths ! i) (pworld s)")
      show ?thesis
      proof (cases c)
        case (Returned b)
        then show ?thesis
          using Start Some True c returned [of i b w'] by (simp add: pLocate_step_def)
      next
        case (Awaiting rp key)
        then show ?thesis
          using Start Some True c awaiting [of i rp key w'] by (simp add: pLocate_step_def)
      qed
    qed
  qed
next
  case (Finish i)
  show ?thesis
  proof (cases "i < length (tasks s)")
    case False
    then show ?thesis using Finish idle by (simp add: pLocate_step_def)
  next
    case True
    show ?thesis
    proof (cases "tasks s ! i")
      case Queued
      then show ?thesis using Finish True idle by (simp add: pLocate_step_def)
    next
      case (Settled b)
      then show ?thesis using Finish True idle by (simp add: pLocate_step_def)
    next
      case (Running rp key)
      obtain b w' where "tester_resume env opts rp key (pworld s) = (b, w')"
        by (cases "tester_resume env opts rp key (pworld s)")
      then show ?thesis
        using Finish True Running finished [of i rp key b w'] by (simp add: pLocate_step_def)
    qed
  qed
qed

lemma in_order_not_Rejected: "in_order ps ts \<noteq> Rejected e"
  by (induction ps ts rule: in_order.induct) auto

lemma pLocate_promise_not_Rejected: "pLocate_promise opts paths s \<noteq> Rejected e"
  by (simp add: pLocate_promise_def in_order_not_Rejected split: option.splits)

lemma tester_begin_resolved:
  "tester_begin env opts (toPath env (cwd opts)) p w =
     (if useCache opts
      then (let (n, w1) = cache_get env Negative (key_of env opts p) w
            in if n = Some False then (Returned False, w1)
               else (let (cached, w2) = cache_get env Positive (key_of env opts p) w1
                     in case cached of
                          Some b \<Rightarrow> (Returned b, w2)
                        | None \<Rightarrow> (Awaiting (resolved env opts p) (key_of env opts p),
                                    probe (resolved env opts p) w2)))
      else (Awaiting (resolved env opts p) (key_of env opts p), probe (resolved env opts p) w))"
  unfolding tester_begin_def key_of_def resolved_def Let_def by (rule refl)

lemma tester_begin_Awaiting:
  "tester_begin env opts (toPath env (cwd opts)) p w = (Awaiting rp key, w') \<Longrightarrow>
     rp = resolved env opts p \<and> key = key_of env opts p"
  by (auto simp: tester_begin_resolved Let_def split: if_splits prod.splits option.splits)

lemma in_set_update: "x \<in> set (xs[i := y]) \<Longrightarrow> x = y \<or> x \<in> set xs"
  using set_update_subset_insert [of xs i y] by auto

lemma pool_ok_init:
  "pool_ok env opts paths \<lparr>tasks = replicate (length paths) Queued, first_true = None, pworld = w\<rparr>"
  by (simp add: pool_ok_def)

lemma pool_ok_step:
  assumes "pool_ok env opts paths s"
  shows "pool_ok env opts paths (pLocate_step env opts (toPath env (cwd opts)) paths s st)"
proof (cases rule: pLocate_step_cases [of env opts "toPath env (cwd opts)" paths s st])
  case idle
  then show ?thesis using assms by simp
next
  case (returned i b w')
  have i: "i < length paths" "tasks s ! i = Queued"
    using first_queued_Some [OF returned(2)] assms by (auto simp: pool_ok_def)
  show ?thesis
    using assms i unfolding returned(4) pool_ok_def settle_def
    by (auto simp: nth_list_update split: option.splits dest: in_set_update)
next
  case (awaiting i rp key w')
  have i: "i < length paths" "tasks s ! i = Queued"
    using first_queued_Some [OF awaiting(2)] assms by (auto simp: pool_ok_def)
  have r: "rp = resolved env opts (paths ! i)" "key = key_of env opts (paths ! i)"
    using tester_begin_Awaiting [OF awaiting(3)] by auto
  show ?thesis
    using assms i r unfolding awaiting(4) pool_ok_def
    by (auto simp: nth_list_update split: option.splits dest: in_set_update)
next
  case (finished i rp key b w')
  show ?thesis
    using assms finished(2,3) unfolding finished(5) pool_ok_def settle_def
    by (auto simp: nth_list_update split: option.splits dest: in_set_update)
qed

lemma pool_ok_run:
  "pool_ok env opts paths (pLocate_run env opts (toPath env (cwd opts)) paths sched w)"
  by (rule pLocate_run_invariant) (simp_all add: pool_ok_init pool_ok_step)


section \<open>What a check answers and what it leaves in the caches\<close>

lemma checkPathSync_world:
  "snd (checkPathSync env rp key (type opts) (allowSymlinks opts) uc w)
     = (if uc
        then (if fs_matches env opts rp then cache_set env Positive key True (probe rp w)
              else cache_set env Negative key False (probe rp w))
        else probe rp w)"
  by (simp add: checkPathSync_def statSync_def fs_matches_def Let_def
      split: stat_outcome.splits sum.splits)

lemma tester_resume_world:
  "snd (tester_resume env opts rp key w)
     = (if useCache opts
        then (if fs_matches env opts rp then cache_set env Positive key True w
              else cache_set env Negative key False w)
        else w)"
  by (simp add: tester_resume_def statPromise_def fs_matches_def Let_def
      split: stat_outcome.splits sum.splits)

lemma get_submap:
  "map_of (cache (snd (LRUCache_get now key c))) k = Some e \<Longrightarrow> map_of (cache c) k = Some e"
  by (auto simp: LRUCache_get_def Map_defs AList.update_conv' AList.delete_conv'
      split: option.splits if_splits)

lemma set_submap:
  assumes "map_of (cache (LRUCache_set now key v c)) k = Some e"
  shows "(k = key \<and> e = \<lparr>entry_value = v, timestamp = now\<rparr>) \<or>
         (k \<noteq> key \<and> map_of (cache c) k = Some e)"
proof (cases "k = key")
  case True
  then show ?thesis
    using assms by (simp add: LRUCache_set_def Map_set_def AList.update_conv' Let_def)
next
  case False
  then show ?thesis
    using assms
    by (auto simp: LRUCache_set_def Map_defs AList.update_conv' AList.delete_conv' Let_def
        split: if_splits list.splits)
qed

lemma cacheKey_same_suffix: "cacheKey rp t s = cacheKey rp' t s \<Longrightarrow> rp = rp'"
  by (simp add: cacheKey_def)

lemma coherent_cong:
  "negativeCache w' = negativeCache w \<Longrightarrow> statCache w' = statCache w \<Longrightarrow>
     coherent env opts w' = coherent env opts w"
  by (simp add: coherent_def)

lemma coherent_probe [simp]: "coherent env opts (probe p w) = coherent env opts w"
  by (rule coherent_cong) simp_all

lemma coherent_get:
  assumes "coherent env opts w"
  shows "coherent env opts (snd (cache_get env cid key w))"
proof (cases cid)
  case Negative
  then show ?thesis
    using assms unfolding coherent_def by (auto dest: get_submap)
next
  case Positive
  then show ?thesis
    using assms unfolding coherent_def by (auto dest: get_submap)
qed

lemma coherent_set_Negative:
  assumes "coherent env opts w" and "\<not> fs_matches env opts rp"
  shows "coherent env opts
           (cache_set env Negative (cacheKey rp (type opts) (allowSymlinks opts)) False w)"
  using assms unfolding coherent_def
  by (auto dest!: set_submap dest: cacheKey_same_suffix)

lemma coherent_set_Positive:
  assumes "coherent env opts w" and "fs_matches env opts rp"
  shows "coherent env opts
           (cache_set env Positive (cacheKey rp (type opts) (allowSymlinks opts)) True w)"
  using assms unfolding coherent_def
  by (auto dest!: set_submap dest: cacheKey_same_suffix)

lemma coherent_after_probe:
  assumes "coherent env opts w"
  shows "coherent env opts
           (if fs_matches env opts rp
            then cache_set env Positive (cacheKey rp (type opts) (allowSymlinks opts)) True w
            else cache_set env Negative (cacheKey rp (type opts) (allowSymlinks opts)) False w)"
  using assms by (simp add: coherent_set_Negative coherent_set_Positive)

lemma negative_hit_coherent:
  assumes "coherent env opts w"
    and "fst (cache_get env Negative (key_of env opts p) w) = Some False"
  shows "\<not> fs_matches env opts (resolved env opts p)"
proof -
  obtain e where "map_of (cache (negativeCache w)) (key_of env opts p) = Some e" "\<not> entry_value e"
    using assms(2) LRUCache_get_Some by fastforce
  then show ?thesis
    using assms(1) unfolding coherent_def key_of_def by blast
qed

lemma positive_hit_coherent:
  assumes "coherent env opts w"
    and "fst (cache_get env Positive (key_of env opts p) w) = Some b"
  shows "b = fs_matches env opts (resolved env opts p)"
proof -
  obtain e where "map_of (cache (statCache w)) (key_of env opts p) = Some e" "entry_value e = b"
    using assms(2) LRUCache_get_Some by fastforce
  then show ?thesis
    using assms(1) unfolding coherent_def key_of_def by blast
qed

lemma body_coherent:
  assumes coh: "useCache opts \<longrightarrow> coherent env opts w"
  shows "fst (locatePathSync_body env opts (toPath env (cwd opts)) p w)
           = fs_matches env opts (resolved env opts p) \<and>
         (useCache opts \<longrightarrow>
            coherent env opts (snd (locatePathSync_body env opts (toPath env (cwd opts)) p w)))"
proof (cases "useCache opts")
  case False
  then show ?thesis by (simp add: body_resolved checkPathSync_answer)
next
  case True
  define k where "k = key_of env opts p"
  define w1 where "w1 = snd (cache_get env Negative k w)"
  define w2 where "w2 = snd (cache_get env Positive k w1)"
  have c1: "coherent env opts w1" and c2: "coherent env opts w2"
    using coh True by (simp_all add: w1_def w2_def coherent_get)
  have k: "k = cacheKey (resolved env opts p) (type opts) (allowSymlinks opts)"
    by (simp add: k_def key_of_def)
  show ?thesis
  proof (cases "fst (cache_get env Negative k w) = Some False")
    case hit: True
    then have "\<not> fs_matches env opts (resolved env opts p)"
      using negative_hit_coherent coh True unfolding k_def by blast
    then show ?thesis
      using hit True c1 unfolding body_resolved k_def [symmetric] w1_def
      by (simp add: split_beta)
  next
    case miss: False
    show ?thesis
    proof (cases "fst (cache_get env Positive k w1)")
      case (Some b)
      then have "b = fs_matches env opts (resolved env opts p)"
        using positive_hit_coherent c1 unfolding k_def by blast
      then show ?thesis
        using miss Some True c2 unfolding body_resolved k_def [symmetric] w1_def w2_def
        by (simp add: split_beta)
    next
      case None
      have "coherent env opts (snd (checkPathSync env (resolved env opts p) k (type opts)
              (allowSymlinks opts) True w2))"
        unfolding checkPathSync_world k using coherent_after_probe [of env opts "probe (resolved env opts p) w2"] c2
        by simp
      then show ?thesis
        using miss None True unfolding body_resolved k_def [symmetric] w1_def w2_def
        by (simp add: split_beta checkPathSync_answer)
    qed
  qed
qed

lemma loop_coherent:
  assumes "useCache opts \<longrightarrow> coherent env opts w"
  shows "fst (locatePathSync_loop env opts (toPath env (cwd opts)) paths w)
           = find (\<lambda>p. fs_matches env opts (resolved env opts p)) paths"
  using assms
proof (induction paths arbitrary: w)
  case Nil
  then show ?case by simp
next
  case (Cons p ps)
  obtain b w' where body: "locatePathSync_body env opts (toPath env (cwd opts)) p w = (b, w')"
    by (cases "locatePathSync_body env opts (toPath env (cwd opts)) p w")
  have "b = fs_matches env opts (resolved env opts p)" "useCache opts \<longrightarrow> coherent env opts w'"
    using body_coherent [OF Cons.prems, of p] body by simp_all
  then show ?case
    using body Cons.IH [of w'] by simp
qed

lemma tester_begin_coherent:
  assumes coh: "useCache opts \<longrightarrow> coherent env opts w"
    and tb: "tester_begin env opts (toPath env (cwd opts)) p w = (c, w')"
  shows "(useCache opts \<longrightarrow> coherent env opts w') \<and>
         (\<forall>b. c = Returned b \<longrightarrow> b = fs_matches env opts (resolved env opts p))"
proof (cases "useCache opts")
  case False
  then show ?thesis using tb by (auto simp: tester_begin_resolved)
next
  case True
  define k where "k = key_of env opts p"
  define w1 where "w1 = snd (cache_get env Negative k w)"
  define w2 where "w2 = snd (cache_get env Positive k w1)"
  have c1: "coherent env opts w1" and c2: "coherent env opts w2"
    using coh True by (simp_all add: w1_def w2_def coherent_get)
  show ?thesis
  proof (cases "fst (cache_get env Negative k w) = Some False")
    case hit: True
    then have "\<not> fs_matches env opts (resolved env opts p)"
      using negative_hit_coherent coh True unfolding k_def by blast
    then show ?thesis
      using hit True c1 tb unfolding tester_begin_resolved k_def [symmetric] w1_def
      by (auto simp: split_beta)
  next
    case miss: False
    show ?thesis
    proof (cases "fst (cache_get env Positive k w1)")
      case (Some b)
      then have "b = fs_matches env opts (resolved env opts p)"
        using positive_hit_coherent c1 unfolding k_def by blast
      then show ?thesis
        using miss Some True c2 tb unfolding tester_begin_resolved k_def [symmetric] w1_def w2_def
        by (auto simp: split_beta)
    next
      case None
      then show ?thesis
        using miss True c2 tb unfolding tester_begin_resolved k_def [symmetric] w1_def w2_def
        by (auto simp: split_beta)
    qed
  qed
qed

lemma tester_resume_coherent:
  assumes "useCache opts \<longrightarrow> coherent env opts w"
  shows "useCache opts \<longrightarrow>
           coherent env opts (snd (tester_resume env opts (resolved env opts p) (key_of env opts p) w))"
  unfolding tester_resume_world key_of_def
  using coherent_after_probe [of env opts w "resolved env opts p"] assms by simp


lemma in_order_find:
  assumes "length ts = length ps"
    and "\<forall>i<length ps. \<forall>b. ts ! i = Settled b \<longrightarrow> b = f (ps ! i)"
    and "in_order ps ts = Fulfilled r"
  shows "r = find f ps"
  using assms
proof (induction ps ts rule: in_order.induct)
  case (1 p ps b ts)
  have hd: "b = f p"
    using "1.prems"(2) [rule_format, of 0 b] by simp
  show ?case
  proof (cases b)
    case True
    then show ?thesis using "1.prems"(3) hd by simp
  next
    case False
    have "\<forall>i<length ps. \<forall>b. ts ! i = Settled b \<longrightarrow> b = f (ps ! i)"
    proof (intro allI impI)
      fix i b' assume "i < length ps" "ts ! i = Settled b'"
      then show "b' = f (ps ! i)"
        using "1.prems"(2) [rule_format, of "Suc i" b'] by simp
    qed
    then have "r = find f ps"
      using "1.IH" [OF False] "1.prems"(1,3) False by simp
    then show ?thesis using False hd by simp
  qed
qed simp_all

lemma settled_update:
  assumes "\<forall>j<n. \<forall>b. ts ! j = Settled b \<longrightarrow> b = g j"
    and "\<forall>b. t = Settled b \<longrightarrow> i < n \<longrightarrow> b = g i"
  shows "\<forall>j<n. \<forall>b. ts[i := t] ! j = Settled b \<longrightarrow> b = g j"
proof (intro allI impI)
  fix j b assume j: "j < n" "ts[i := t] ! j = Settled b"
  show "b = g j"
  proof (cases "i = j \<and> i < length ts")
    case True
    then show ?thesis using j assms(2) by simp
  next
    case False
    then have "ts[i := t] ! j = ts ! j"
      by (cases "i < length ts") (auto simp: list_update_beyond)
    then show ?thesis using j assms(1) by simp
  qed
qed

lemma answers_fs_step:
  assumes "answers_fs env opts paths s"
  shows "answers_fs env opts paths (pLocate_step env opts (toPath env (cwd opts)) paths s st)"
proof -
  have ok: "pool_ok env opts paths (pLocate_step env opts (toPath env (cwd opts)) paths s st)"
    using assms by (simp add: answers_fs_def pool_ok_step)
  have len: "length (tasks s) = length paths"
    using assms by (simp add: answers_fs_def pool_ok_def)
  have coh: "useCache opts \<longrightarrow> coherent env opts (pworld s)"
    using assms by (simp add: answers_fs_def)
  have ans: "\<forall>j<length paths. \<forall>b. tasks s ! j = Settled b \<longrightarrow>
               b = fs_matches env opts (resolved env opts (paths ! j))"
    using assms by (simp add: answers_fs_def)
  show ?thesis
  proof (cases rule: pLocate_step_cases [of env opts "toPath env (cwd opts)" paths s st])
    case idle
    then show ?thesis using assms by simp
  next
    case (returned i b w')
    have b: "(useCache opts \<longrightarrow> coherent env opts w') \<and>
          b = fs_matches env opts (resolved env opts (paths ! i))"
      using tester_begin_coherent [OF coh returned(3)] by simp
    have "\<forall>j<length paths. \<forall>b'. (tasks s)[i := Settled b] ! j = Settled b' \<longrightarrow>
               b' = fs_matches env opts (resolved env opts (paths ! j))"
      using ans b by (intro settled_update) simp_all
    then show ?thesis
      using ok b unfolding answers_fs_def returned(4) by (simp add: settle_def)
  next
    case (awaiting i rp key w')
    have b: "useCache opts \<longrightarrow> coherent env opts w'"
      using tester_begin_coherent [OF coh awaiting(3)] by simp
    have "\<forall>j<length paths. \<forall>b'. (tasks s)[i := Running rp key] ! j = Settled b' \<longrightarrow>
               b' = fs_matches env opts (resolved env opts (paths ! j))"
      using ans by (intro settled_update) simp_all
    then show ?thesis
      using ok b unfolding answers_fs_def awaiting(4) by simp
  next
    case (finished i rp key b w')
    have r: "rp = resolved env opts (paths ! i)" "key = key_of env opts (paths ! i)"
      using assms finished(2,3) len by (auto simp: answers_fs_def pool_ok_def)
    have b: "b = fs_matches env opts (resolved env opts (paths ! i))"
      using tester_resume_answer [of env opts rp key "pworld s"] finished(4) r by simp
    have c: "useCache opts \<longrightarrow> coherent env opts w'"
      using tester_resume_coherent [OF coh, of "paths ! i"] finished(4) r by simp
    have "\<forall>j<length paths. \<forall>b'. (tasks s)[i := Settled b] ! j = Settled b' \<longrightarrow>
               b' = fs_matches env opts (resolved env opts (paths ! j))"
      using ans b by (intro settled_update) simp_all
    then show ?thesis
      using ok c unfolding answers_fs_def finished(5) by (simp add: settle_def)
  qed
qed

lemma answers_fs_run:
  assumes "useCache opts \<longrightarrow> coherent env opts w"
  shows "answers_fs env opts paths (pLocate_run env opts (toPath env (cwd opts)) paths sched w)"
proof (rule pLocate_run_invariant)
  show "answers_fs env opts paths
          \<lparr>tasks = replicate (length paths) Queued, first_true = None, pworld = w\<rparr>"
    using assms by (simp add: answers_fs_def pool_ok_init)
qed (rule answers_fs_step)

lemma locatePath_coherent:
  assumes "useCache opts \<longrightarrow> coherent env opts w" and "valid_type (type opts)"
    and "preserveOrder opts"
    and "fst (locatePath env paths opts sched w) = Fulfilled r"
  shows "r = find (\<lambda>p. fs_matches env opts (resolved env opts p)) paths"
proof -
  define s where "s = pLocate_run env opts (toPath env (cwd opts)) paths sched w"
  have a: "answers_fs env opts paths s"
    unfolding s_def using assms(1) by (rule answers_fs_run)
  have "in_order paths (tasks s) = Fulfilled r"
    using assms(2,3,4) by (simp add: locatePath_valid pLocate_promise_def s_def)
  then show ?thesis
    using a by (intro in_order_find [of "tasks s"]) (auto simp: answers_fs_def pool_ok_def)
qed

lemma first_queued_eq:
  "k < length ts \<Longrightarrow> ts ! k = Queued \<Longrightarrow> \<forall>j<k. ts ! j \<noteq> Queued \<Longrightarrow> first_queued ts = Some k"
proof (induction ts arbitrary: k)
  case Nil
  then show ?case by simp
next
  case (Cons t ts)
  show ?case
  proof (cases k)
    case 0
    then show ?thesis using Cons.prems by simp
  next
    case (Suc m)
    have "t \<noteq> Queued"
      using Cons.prems(3) Suc by (auto dest: spec [of _ 0])
    moreover have "first_queued ts = Some m"
    proof (rule Cons.IH)
      show "m < length ts" "ts ! m = Queued"
        using Cons.prems Suc by simp_all
      show "\<forall>j<m. ts ! j \<noteq> Queued"
      proof (intro allI impI)
        fix j assume "j < m"
        then show "ts ! j \<noteq> Queued"
          using Cons.prems(3) [rule_format, of "Suc j"] Suc by simp
      qed
    qed
    ultimately show ?thesis using Suc by simp
  qed
qed

lemma step_Start_tasks:
  assumes "first_queued (tasks s) = Some k" and "slot_free (concurrency opts) (tasks s)"
  shows "\<exists>t. t \<noteq> Queued \<and> tasks (pLocate_step env opts dir paths s Start) = (tasks s)[k := t]"
proof (cases "tester_begin env opts dir (paths ! k) (pworld s)")
  case (Pair c w')
  then show ?thesis
    using assms by (cases c) (auto simp: pLocate_step_def settle_def)
qed

lemma step_Finish_tasks:
  assumes "k < length (tasks s)" and "tasks s ! k \<noteq> Queued"
  shows "\<exists>b. tasks (pLocate_step env opts dir paths s (Finish k)) = (tasks s)[k := Settled b]"
proof (cases "tasks s ! k")
  case Queued
  then show ?thesis using assms by simp
next
  case (Running rp key)
  then show ?thesis
    using assms by (auto simp: pLocate_step_def settle_def split: prod.splits)
next
  case (Settled b)
  have "tasks s = (tasks s)[k := Settled b]"
    using list_update_id [of "tasks s" k] Settled by simp
  moreover have "pLocate_step env opts dir paths s (Finish k) = s"
    using assms Settled by (simp add: pLocate_step_def)
  ultimately show ?thesis by auto
qed

text \<open>The schedule that runs the checks one after the other reaches a settled pool.\<close>

lemma sequential_Suc: "sequential (Suc k) = sequential k @ [Start, Finish k]"
  by (simp add: sequential_def)

lemma sequential_settles:
  assumes "concurrency opts \<noteq> Some 0" and "k \<le> length paths"
  shows "let s = pLocate_run env opts dir paths (sequential k) w
         in length (tasks s) = length paths \<and>
            (\<forall>i<k. \<exists>b. tasks s ! i = Settled b) \<and>
            (\<forall>i. k \<le> i \<and> i < length paths \<longrightarrow> tasks s ! i = Queued)"
  using assms(2)
proof (induction k)
  case 0
  then show ?case by (simp add: sequential_def pLocate_run_Nil)
next
  case (Suc k)
  define s where "s = pLocate_run env opts dir paths (sequential k) w"
  define s1 where "s1 = pLocate_step env opts dir paths s Start"
  define s2 where "s2 = pLocate_step env opts dir paths s1 (Finish k)"
  have run: "pLocate_run env opts dir paths (sequential (Suc k)) w = s2"
    by (simp add: sequential_Suc pLocate_run_def s_def s1_def s2_def)
  have k: "k < length paths" using Suc.prems by simp
  have IH: "length (tasks s) = length paths" "\<forall>i<k. \<exists>b. tasks s ! i = Settled b"
      "\<forall>i. k \<le> i \<and> i < length paths \<longrightarrow> tasks s ! i = Queued"
    using Suc.IH k by (simp_all add: s_def Let_def)
  have fq: "first_queued (tasks s) = Some k"
  proof (rule first_queued_eq)
    show "k < length (tasks s)" "tasks s ! k = Queued" using IH k by simp_all
    show "\<forall>j<k. tasks s ! j \<noteq> Queued" using IH(2) by fastforce
  qed
  have "\<not> is_running t" if mem: "t \<in> set (tasks s)" for t
  proof -
    obtain i where i: "i < length (tasks s)" "t = tasks s ! i"
      using mem unfolding in_set_conv_nth by auto
    show ?thesis
    proof (cases "i < k")
      case True
      then show ?thesis using IH(2) i by (auto simp: is_running_def)
    next
      case False
      then show ?thesis using IH(1,3) i by (simp add: is_running_def)
    qed
  qed
  then have "filter is_running (tasks s) = []"
    by (simp add: filter_empty_conv)
  then have free: "slot_free (concurrency opts) (tasks s)"
    using assms(1) by (cases "concurrency opts") (simp_all add: slot_free_def)
  have "\<exists>t. t \<noteq> Queued \<and> tasks s1 = (tasks s)[k := t]"
    unfolding s1_def by (rule step_Start_tasks [OF fq free])
  then obtain t where t: "t \<noteq> Queued" "tasks s1 = (tasks s)[k := t]"
    by auto
  have k1: "k < length (tasks s1)" and q1: "tasks s1 ! k \<noteq> Queued"
    using t IH(1) k by simp_all
  have "\<exists>b. tasks s2 = (tasks s1)[k := Settled b]"
    unfolding s2_def by (rule step_Finish_tasks [OF k1 q1])
  then obtain b where b: "tasks s2 = (tasks s1)[k := Settled b]"
    by auto
  have s2: "length (tasks s2) = length paths \<and>
            (\<forall>i<k. tasks s2 ! i = tasks s ! i) \<and>
            (\<forall>i. k < i \<and> i < length paths \<longrightarrow> tasks s2 ! i = Queued) \<and>
            (\<exists>b. tasks s2 ! k = Settled b)"
    using IH(1,3) k by (simp add: b t)
  have "\<forall>i<Suc k. \<exists>b. tasks s2 ! i = Settled b"
    using s2 IH(2) by (auto simp: less_Suc_eq)
  moreover have "\<forall>i. Suc k \<le> i \<and> i < length paths \<longrightarrow> tasks s2 ! i = Queued"
    using s2 by simp
  ultimately show ?case
    using s2 unfolding run Let_def by simp
qed

lemma in_order_settled:
  "length ts = length ps \<Longrightarrow> \<forall>i<length ps. \<exists>b. ts ! i = Settled b \<Longrightarrow>
     \<exists>r. in_order ps ts = Fulfilled r"
proof (induction ps arbitrary: ts)
  case Nil
  then show ?case by simp
next
  case (Cons p ps)
  then obtain t ts' where ts: "ts = t # ts'"
    by (cases ts) auto
  obtain b where b: "t = Settled b"
    using Cons.prems(2) [rule_format, of 0] ts by auto
  have "\<forall>i<length ps. \<exists>b. ts' ! i = Settled b"
  proof (intro allI impI)
    fix i assume "i < length ps"
    then show "\<exists>b. ts' ! i = Settled b"
      using Cons.prems(2) [rule_format, of "Suc i"] ts by simp
  qed
  then have "\<exists>r. in_order ps ts' = Fulfilled r"
    using Cons.IH [of ts'] Cons.prems(1) ts by simp
  then show ?case
    using ts b by simp
qed

lemma sequential_fulfils:
  assumes "concurrency opts \<noteq> Some 0" and "preserveOrder opts"
  shows "\<exists>r. pLocate_promise opts paths
                (pLocate_run env opts dir paths (sequential (length paths)) w) = Fulfilled r"
  using sequential_settles [OF assms(1), of "length paths" paths env dir w] assms(2)
  by (simp add: pLocate_promise_def Let_def in_order_settled)

section \<open>Invalid type selectors\<close>

text \<open>
  C5. With a type selector other than \<^verbatim>\<open>file\<close>, \<^verbatim>\<open>directory\<close> and \<^verbatim>\<open>both\<close>,
  \<^verbatim>\<open>locatePathSync\<close> throws and \<^verbatim>\<open>locatePath\<close> rejects, under every schedule, with the
  message naming the selector, and the module state is the one before the call: no cache
  was read or written, no probe was issued, the clock was not read.
\<close>

theorem invalid_type_fails_first:
  assumes "\<not> valid_type (type opts)"
  shows "locatePathSync env paths opts w
           = (Inl (Error (''Invalid type specified: '' @ type opts)), w) \<and>
         locatePath env paths opts sched w
           = (Rejected (Error (''Invalid type specified: '' @ type opts)), w)"
  using checkType_invalid [OF assms] by (simp add: locatePathSync_def locatePath_def)

theorem invalid_type_fails_first_witness:
  "\<not> valid_type (type (opts1\<lparr>type := ''bogus''\<rparr>)) \<and>
   locatePathSync env1 [''a'', ''b''] (opts1\<lparr>type := ''bogus''\<rparr>) initial_world
     = (Inl (Error ''Invalid type specified: bogus''), initial_world) \<and>
   locatePath env1 [''a'', ''b''] (opts1\<lparr>type := ''bogus''\<rparr>) [Start, Start, Finish 0] initial_world
     = (Rejected (Error ''Invalid type specified: bogus''), initial_world)"
proof -
  have h: "\<not> valid_type (type (opts1\<lparr>type := ''bogus''\<rparr>))"
    by (simp add: valid_type_def)
  show ?thesis
    using h invalid_type_fails_first [OF h, of env1 "[''a'', ''b'']" initial_world
        "[Start, Start, Finish 0]"]
    by simp
qed


section \<open>Probes that fail\<close>

lemma probe_fails_no_match: "probe_fails env opts rp \<Longrightarrow> \<not> fs_matches env opts rp"
  by (auto simp: probe_fails_def fs_matches_def split: stat_outcome.splits)

lemma cache_get_absent:
  "map_of (cache (the_cache cid w)) key = None \<Longrightarrow>
     cache_get env cid key w = (None, w\<lparr>trace := trace w @ [CacheGet cid key]\<rparr>)"
  by (cases cid) (simp_all add: cache_get_def LRUCache_get_def Map_defs the_cache_def put_cache_def)

lemma set_then_get:
  "Map_get (cache (LRUCache_set now key v c)) key = Some \<lparr>entry_value = v, timestamp = now\<rparr>"
  by (simp add: LRUCache_set_def Map_get_def Map_set_def AList.update_conv' Let_def)

text \<open>
  C6. When the probe of a resolved path reports no entry or fails with an error,
  \<^verbatim>\<open>checkPathSync\<close> and the resumed asynchronous tester return \<open>False\<close>; with
  \<^verbatim>\<open>useCache\<close> they store \<open>False\<close> under the key in the negative cache (where a lookup
  then finds it) and without it they store nothing. The synchronous loop goes on with the
  remaining candidates from that state, and the pool marks the check as settled false,
  which the in-order scan passes over. With a valid type selector neither locator ever
  hands an error to its caller, whatever the filesystem does.
\<close>

theorem probe_failure_is_nonmatch:
  assumes "probe_fails env opts rp"
  shows "checkPathSync env rp key (type opts) (allowSymlinks opts) (useCache opts) w
           = (False, if useCache opts then cache_set env Negative key False (probe rp w)
                     else probe rp w) \<and>
         tester_resume env opts rp key w
           = (False, if useCache opts then cache_set env Negative key False w else w) \<and>
         Map_get (cache (negativeCache (cache_set env Negative key False w))) key
           = Some \<lparr>entry_value = False, timestamp = Date_now env (clock w)\<rparr> \<and>
         (rp = resolved env opts p \<and> \<not> useCache opts \<longrightarrow>
            locatePathSync_loop env opts (toPath env (cwd opts)) (p # ps) w
              = locatePathSync_loop env opts (toPath env (cwd opts)) ps (probe rp w)) \<and>
         (rp = resolved env opts p \<and> key = key_of env opts p \<and> useCache opts \<and>
          map_of (cache (negativeCache w)) key = None \<and> map_of (cache (statCache w)) key = None \<longrightarrow>
            locatePathSync_loop env opts (toPath env (cwd opts)) (p # ps) w
              = locatePathSync_loop env opts (toPath env (cwd opts)) ps
                  (cache_set env Negative key False
                     (probe rp (w\<lparr>trace := trace w @ [CacheGet Negative key, CacheGet Positive key]\<rparr>)))) \<and>
         (i < length (tasks s) \<and> tasks s ! i = Running rp key \<longrightarrow>
            pLocate_step env opts dir paths s (Finish i)
              = s\<lparr>tasks := (tasks s)[i := Settled False],
                  pworld := (if useCache opts then cache_set env Negative key False (pworld s)
                             else pworld s)\<rparr> \<and>
            in_order (q # qs) (Settled False # ts) = in_order qs ts) \<and>
         (valid_type (type opts) \<longrightarrow>
            (\<exists>r. fst (locatePathSync env paths opts w) = Inr r) \<and>
            (\<forall>sched e. fst (locatePath env paths opts sched w) \<noteq> Rejected e))"
proof -
  have nm: "\<not> fs_matches env opts rp"
    using assms by (rule probe_fails_no_match)
  have sync: "checkPathSync env rp key (type opts) (allowSymlinks opts) (useCache opts) w
           = (False, if useCache opts then cache_set env Negative key False (probe rp w)
                     else probe rp w)" for key w
    using nm checkPathSync_answer [of env rp key opts "useCache opts" w]
      checkPathSync_world [of env rp key opts "useCache opts" w]
    by (simp add: prod_eq_iff)
  have async: "tester_resume env opts rp key w
           = (False, if useCache opts then cache_set env Negative key False w else w)" for w
    using nm tester_resume_answer [of env opts rp key w] tester_resume_world [of env opts rp key w]
    by (simp add: prod_eq_iff)
  have stored: "Map_get (cache (negativeCache (cache_set env Negative key False w))) key
           = Some \<lparr>entry_value = False, timestamp = Date_now env (clock w)\<rparr>"
    by (simp add: set_then_get)
  have cont1: "locatePathSync_loop env opts (toPath env (cwd opts)) (p # ps) w
              = locatePathSync_loop env opts (toPath env (cwd opts)) ps (probe rp w)"
    if "rp = resolved env opts p \<and> \<not> useCache opts"
    using that sync [of "key_of env opts p" w] by (simp add: body_resolved)
  have cont2: "locatePathSync_loop env opts (toPath env (cwd opts)) (p # ps) w
              = locatePathSync_loop env opts (toPath env (cwd opts)) ps
                  (cache_set env Negative key False
                     (probe rp (w\<lparr>trace := trace w @ [CacheGet Negative key, CacheGet Positive key]\<rparr>)))"
    if h: "rp = resolved env opts p \<and> key = key_of env opts p \<and> useCache opts \<and>
          map_of (cache (negativeCache w)) key = None \<and> map_of (cache (statCache w)) key = None"
  proof -
    have g1: "cache_get env Negative key w = (None, w\<lparr>trace := trace w @ [CacheGet Negative key]\<rparr>)"
      using h by (intro cache_get_absent) (auto simp: the_cache_def)
    have g2: "cache_get env Positive key (w\<lparr>trace := trace w @ [CacheGet Negative key]\<rparr>)
        = (None, w\<lparr>trace := trace w @ [CacheGet Negative key, CacheGet Positive key]\<rparr>)"
      using h cache_get_absent [of Positive "w\<lparr>trace := trace w @ [CacheGet Negative key]\<rparr>" key env]
      by (auto simp: the_cache_def)
    have k: "key_of env opts p = key" "resolved env opts p = rp" "useCache opts"
      using h by auto
    show ?thesis
      using g1 g2
        sync [of key "w\<lparr>trace := trace w @ [CacheGet Negative key, CacheGet Positive key]\<rparr>"]
      by (simp add: body_resolved k)
  qed
  have step: "pLocate_step env opts dir paths s (Finish i)
              = s\<lparr>tasks := (tasks s)[i := Settled False],
                  pworld := (if useCache opts then cache_set env Negative key False (pworld s)
                             else pworld s)\<rparr>"
    if "i < length (tasks s) \<and> tasks s ! i = Running rp key"
    using that async [of "pworld s"] by (simp add: pLocate_step_def settle_def)
  have noerr: "(\<exists>r. fst (locatePathSync env paths opts w) = Inr r) \<and>
            (\<forall>sched e. fst (locatePath env paths opts sched w) \<noteq> Rejected e)"
    if "valid_type (type opts)"
    using that by (simp add: locatePathSync_valid locatePath_valid pLocate_promise_not_Rejected)
  have inord: "in_order (q # qs) (Settled False # ts) = in_order qs ts"
    by simp
  from sync [of key w] async [of w] stored cont1 cont2 step inord noerr
  show ?thesis by blast
qed


theorem probe_failure_is_nonmatch_witness:
  "probe_fails env1 opts1 ''/d/locked'' \<and> probe_fails env1 opts1 ''/d/a'' \<and>
   checkPathSync env1 ''/d/locked'' ''/d/locked:file:true'' ''file'' True True initial_world
     = (False, cache_set env1 Negative ''/d/locked:file:true'' False
                 (probe ''/d/locked'' initial_world)) \<and>
   Map_get (cache (negativeCache (cache_set env1 Negative ''/d/locked:file:true'' False
                                    (probe ''/d/locked'' initial_world)))) ''/d/locked:file:true''
     = Some \<lparr>entry_value = False, timestamp = 6000\<rparr> \<and>
   locatePathSync_loop env1 (opts1\<lparr>useCache := False\<rparr>) ''/d'' [''a'', ''b''] initial_world
     = locatePathSync_loop env1 (opts1\<lparr>useCache := False\<rparr>) ''/d'' [''b'']
         (probe ''/d/a'' initial_world) \<and>
   fst (locatePathSync env1 [''locked'', ''a'', ''b''] opts1 initial_world) = Inr (Some ''b'') \<and>
   fst (locatePath env1 [''locked'', ''a'', ''b''] opts1
          [Start, Start, Start, Finish 2, Finish 0, Finish 1] initial_world)
     = Fulfilled (Some ''b'')"
proof -
  have h1: "probe_fails env1 opts1 ''/d/locked''"
    by (simp add: probe_fails_def env1_def opts1_def default_options_def fs1_def)
  have h2: "probe_fails env1 (opts1\<lparr>useCache := False\<rparr>) ''/d/a''"
    by (simp add: probe_fails_def env1_def opts1_def default_options_def fs1_def)
  have h3: "probe_fails env1 opts1 ''/d/a''"
    by (simp add: probe_fails_def env1_def opts1_def default_options_def fs1_def)
  have o: "type opts1 = ''file''" "allowSymlinks opts1" "useCache opts1"
      "toPath env1 (cwd opts1) = ''/d''" "resolved env1 (opts1\<lparr>useCache := False\<rparr>) ''a'' = ''/d/a''"
    by (simp_all add: opts1_def default_options_def toPath_def resolved_def env1_def)
  have r1: "fst (locatePathSync env1 [''locked'', ''a'', ''b''] opts1 initial_world) = Inr (Some ''b'')"
    by code_simp
  have r2: "fst (locatePath env1 [''locked'', ''a'', ''b''] opts1
          [Start, Start, Start, Finish 2, Finish 0, Finish 1] initial_world)
     = Fulfilled (Some ''b'')"
    by code_simp
  have t1: "checkPathSync env1 ''/d/locked'' ''/d/locked:file:true'' ''file'' True True initial_world
     = (False, cache_set env1 Negative ''/d/locked:file:true'' False
                 (probe ''/d/locked'' initial_world))"
    using probe_failure_is_nonmatch [OF h1, where key = "''/d/locked:file:true''"
        and w = initial_world] o by simp
  have t2: "Map_get (cache (negativeCache (cache_set env1 Negative ''/d/locked:file:true'' False
                                    (probe ''/d/locked'' initial_world)))) ''/d/locked:file:true''
     = Some \<lparr>entry_value = False, timestamp = 6000\<rparr>"
    using probe_failure_is_nonmatch [OF h1, where key = "''/d/locked:file:true''"
        and w = "probe ''/d/locked'' initial_world"]
    by (simp add: env1_def initial_world_def)
  have t3: "locatePathSync_loop env1 (opts1\<lparr>useCache := False\<rparr>) ''/d'' [''a'', ''b''] initial_world
     = locatePathSync_loop env1 (opts1\<lparr>useCache := False\<rparr>) ''/d'' [''b'']
         (probe ''/d/a'' initial_world)"
    using probe_failure_is_nonmatch [OF h2, where p = "''a''" and ps = "[''b'']"
        and w = initial_world] o
    by (simp add: toPath_def opts1_def default_options_def)
  show ?thesis
    using h1 h3 t1 t2 t3 r1 r2 by simp
qed


section \<open>Negative cache first\<close>

lemma set_delete_subset: "set (AList.delete k m) \<subseteq> set m"
  by (auto simp: AList.delete_eq)

lemma set_update_subset: "set (AList.update k v m) \<subseteq> insert (k, v) (set m)"
  by (induction m) auto

lemma entries_get: "set (cache (snd (LRUCache_get now key c))) \<subseteq> set (cache c)"
proof (cases "map_of (cache c) key")
  case None
  then show ?thesis by (simp add: LRUCache_get_def Map_defs)
next
  case (Some e)
  have "(key, e) \<in> set (cache c)"
    using Some by (rule map_of_SomeD)
  then have "set (AList.update key e (AList.delete key (cache c))) \<subseteq> set (cache c)"
    using set_update_subset [of key e "AList.delete key (cache c)"]
      set_delete_subset [of key "cache c"] by auto
  then show ?thesis
    using Some set_delete_subset [of key "cache c"] by (simp add: LRUCache_get_def Map_defs)
qed

lemma entries_set:
  "set (cache (LRUCache_set now key v c))
     \<subseteq> insert (key, \<lparr>entry_value = v, timestamp = now\<rparr>) (set (cache c))"
proof -
  have u: "set (Map_set m key x) \<subseteq> insert (key, x) (set (cache c))"
    if "set m \<subseteq> set (cache c)" for m x
    using that set_update_subset [of key x m] unfolding Map_set_def by auto
  have d: "set (Map_delete (cache c) k) \<subseteq> set (cache c)" for k
    unfolding Map_delete_def by (rule set_delete_subset)
  show ?thesis
    by (simp add: LRUCache_set_def Let_def u d split: option.splits)
qed

lemma values_ok_cong:
  "negativeCache w' = negativeCache w \<Longrightarrow> statCache w' = statCache w \<Longrightarrow>
     values_ok w' = values_ok w"
  by (simp add: values_ok_def)

lemma values_ok_get: "values_ok w \<Longrightarrow> values_ok (snd (cache_get env cid key w))"
  using entries_get [of "Date_now env (clock w)" key "negativeCache w"]
    entries_get [of "Date_now env (clock w)" key "statCache w"]
  by (cases cid) (auto simp: values_ok_def list_all_iff)

lemma values_ok_set_Negative: "values_ok w \<Longrightarrow> values_ok (cache_set env Negative key False w)"
  using entries_set [of "Date_now env (clock w)" key False "negativeCache w"]
  by (auto simp: values_ok_def list_all_iff)

lemma values_ok_set_Positive: "values_ok w \<Longrightarrow> values_ok (cache_set env Positive key True w)"
  using entries_set [of "Date_now env (clock w)" key True "statCache w"]
  by (auto simp: values_ok_def list_all_iff)

lemma values_ok_probe [simp]: "values_ok (probe p w) = values_ok w"
  by (rule values_ok_cong) simp_all

lemma values_ok_checkPathSync:
  "values_ok w \<Longrightarrow>
     values_ok (snd (checkPathSync env rp key (type (opts::options)) (allowSymlinks opts) uc w))"
  by (simp add: checkPathSync_world values_ok_set_Negative values_ok_set_Positive)

lemma values_ok_tester_resume:
  "values_ok w \<Longrightarrow> values_ok (snd (tester_resume env opts rp key w))"
  by (simp add: tester_resume_world values_ok_set_Negative values_ok_set_Positive)

lemma values_ok_body:
  "values_ok w \<Longrightarrow> values_ok (snd (locatePathSync_body env opts dir p w))"
  by (simp add: locatePathSync_body_def Let_def split_beta values_ok_get
      values_ok_checkPathSync split: option.splits)

lemma values_ok_tester_begin:
  "values_ok w \<Longrightarrow> values_ok (snd (tester_begin env opts dir p w))"
  by (simp add: tester_begin_def Let_def split_beta values_ok_get split: option.splits)

lemma values_ok_loop:
  "values_ok w \<Longrightarrow> values_ok (snd (locatePathSync_loop env opts dir paths w))"
proof (induction paths arbitrary: w)
  case Nil
  then show ?case by simp
next
  case (Cons p ps)
  then show ?case
    using values_ok_body [of w env opts dir p]
    by (cases "locatePathSync_body env opts dir p w") auto
qed

lemma values_ok_step:
  assumes "values_ok (pworld s)"
  shows "values_ok (pworld (pLocate_step env opts dir paths s st))"
proof (cases rule: pLocate_step_cases [of env opts dir paths s st])
  case idle
  then show ?thesis using assms by simp
next
  case (returned i b w')
  then show ?thesis
    using values_ok_tester_begin [OF assms, of env opts dir "paths ! i"] by (simp add: settle_def)
next
  case (awaiting i rp key w')
  then show ?thesis
    using values_ok_tester_begin [OF assms, of env opts dir "paths ! i"] by simp
next
  case (finished i rp key b w')
  then show ?thesis
    using values_ok_tester_resume [OF assms, of env opts rp key] by (simp add: settle_def)
qed

lemma values_ok_run:
  "values_ok w \<Longrightarrow> values_ok (pworld (pLocate_run env opts dir paths sched w))"
  by (rule pLocate_run_invariant [where P = "\<lambda>s. values_ok (pworld s)"])
    (simp_all add: values_ok_step)


lemma values_ok_initial: "values_ok initial_world"
  by (simp add: values_ok_def initial_world_def LRUCache_new_def)

lemma negative_hit:
  assumes "Map_get (cache (negativeCache w)) k = Some e" and "\<not> entry_value e"
    and "\<not> Date_now env (clock w) - timestamp e > ttl (negativeCache w)"
  shows "cache_get env Negative k w
           = (Some False,
              w\<lparr>negativeCache := (negativeCache w)
                    \<lparr>cache := Map_delete (cache (negativeCache w)) k @ [(k, e)]\<rparr>,
                clock := Suc (clock w),
                trace := trace w @ [CacheGet Negative k]\<rparr>)"
  using assms
  by (simp add: cache_get_def the_cache_def put_cache_def LRUCache_get_def Map_defs
      update_after_delete Let_def)

text \<open>
  C10, as the code has it. With \<^verbatim>\<open>useCache\<close>, when the negative cache holds under the
  candidate's key an entry with value \<open>False\<close> that has not expired at the reading of the
  clock, both the loop body of \<^verbatim>\<open>locatePathSync\<close> and the tester of \<^verbatim>\<open>locatePath\<close> answer
  no at once, whatever the positive cache holds: the only effect is the read of the
  negative cache, which moves the entry to the most recently used position; the positive
  cache is not read and no probe is issued. Both caches start empty, and whenever every
  positive entry is \<open>True\<close> and every negative entry is \<open>False\<close> before a call of either
  locator, the same holds after it, under every schedule.
\<close>

theorem negative_cache_first:
  assumes "useCache opts"
    and "Map_get (cache (negativeCache w)) (key_of env opts p) = Some e"
    and "\<not> entry_value e"
    and "\<not> Date_now env (clock w) - timestamp e > ttl (negativeCache w)"
  shows "locatePathSync_body env opts (toPath env (cwd opts)) p w
           = (False,
              w\<lparr>negativeCache := (negativeCache w)
                    \<lparr>cache := Map_delete (cache (negativeCache w)) (key_of env opts p)
                               @ [(key_of env opts p, e)]\<rparr>,
                clock := Suc (clock w),
                trace := trace w @ [CacheGet Negative (key_of env opts p)]\<rparr>) \<and>
         tester_begin env opts (toPath env (cwd opts)) p w
           = (Returned False,
              w\<lparr>negativeCache := (negativeCache w)
                    \<lparr>cache := Map_delete (cache (negativeCache w)) (key_of env opts p)
                               @ [(key_of env opts p, e)]\<rparr>,
                clock := Suc (clock w),
                trace := trace w @ [CacheGet Negative (key_of env opts p)]\<rparr>) \<and>
         values_ok initial_world \<and>
         (values_ok w0 \<longrightarrow>
            values_ok (snd (locatePathSync env0 paths opts0 w0)) \<and>
            values_ok (snd (locatePath env0 paths opts0 sched w0)))"
proof -
  note hit = negative_hit [OF assms(2,3,4)]
  have b: "locatePathSync_body env opts (toPath env (cwd opts)) p w
           = (False,
              w\<lparr>negativeCache := (negativeCache w)
                    \<lparr>cache := Map_delete (cache (negativeCache w)) (key_of env opts p)
                               @ [(key_of env opts p, e)]\<rparr>,
                clock := Suc (clock w),
                trace := trace w @ [CacheGet Negative (key_of env opts p)]\<rparr>)"
    using assms(1) by (simp add: body_resolved hit)
  have t: "tester_begin env opts (toPath env (cwd opts)) p w
           = (Returned False,
              w\<lparr>negativeCache := (negativeCache w)
                    \<lparr>cache := Map_delete (cache (negativeCache w)) (key_of env opts p)
                               @ [(key_of env opts p, e)]\<rparr>,
                clock := Suc (clock w),
                trace := trace w @ [CacheGet Negative (key_of env opts p)]\<rparr>)"
    using assms(1) by (simp add: tester_begin_resolved hit)
  have s: "values_ok (snd (locatePathSync env0 paths opts0 w0))" if "values_ok w0"
    using that values_ok_loop [OF that, of env0 opts0 "toPath env0 (cwd opts0)" paths]
    by (auto simp: locatePathSync_def split: sum.splits prod.splits)
  have a: "values_ok (snd (locatePath env0 paths opts0 sched w0))" if "values_ok w0"
    using that values_ok_run [OF that, of env0 opts0 "toPath env0 (cwd opts0)" paths sched]
    by (simp add: locatePath_def Let_def split: sum.splits)
  from b t values_ok_initial s a show ?thesis by blast
qed

theorem negative_cache_first_witness:
  "useCache opts1 \<and>
   Map_get (cache (negativeCache (overlap 2000))) (key_of env1 opts1 ''b'')
     = Some \<lparr>entry_value = False, timestamp = 2000\<rparr> \<and>
   \<not> Date_now env1 (clock (overlap 2000)) - 2000 > ttl (negativeCache (overlap 2000)) \<and>
   Map_has (cache (statCache (overlap 2000))) (key_of env1 opts1 ''b'') \<and>
   fst (locatePathSync_body env1 opts1 ''/d'' ''b'' (overlap 2000)) = False \<and>
   fst (tester_begin env1 opts1 ''/d'' ''b'' (overlap 2000)) = Returned False \<and>
   statCache (snd (locatePathSync_body env1 opts1 ''/d'' ''b'' (overlap 2000)))
     = statCache (overlap 2000) \<and>
   trace (snd (locatePathSync_body env1 opts1 ''/d'' ''b'' (overlap 2000)))
     = [CacheGet Negative ''/d/b:file:true''] \<and>
   values_ok (overlap 2000) \<and>
   values_ok (snd (locatePathSync env1 [''a'', ''b''] opts1 (overlap 2000)))"
proof -
  have k: "key_of env1 opts1 ''b'' = ''/d/b:file:true''" "toPath env1 (cwd opts1) = ''/d''"
    by (simp_all add: key_of_def resolved_def cacheKey_def String_of_bool_def env1_def opts1_def
        default_options_def toPath_def)
  have h1: "useCache opts1"
    by (simp add: opts1_def default_options_def)
  have h2: "Map_get (cache (negativeCache (overlap 2000))) (key_of env1 opts1 ''b'')
     = Some \<lparr>entry_value = False, timestamp = 2000\<rparr>"
    by (simp add: k overlap_def Map_get_def)
  have h3: "\<not> entry_value \<lparr>entry_value = False, timestamp = 2000\<rparr>"
    by simp
  have h4: "\<not> Date_now env1 (clock (overlap 2000))
               - timestamp \<lparr>entry_value = False, timestamp = 2000\<rparr>
             > ttl (negativeCache (overlap 2000))"
    by (simp add: env1_def overlap_def initial_world_def LRUCache_new_def)
  have h5: "values_ok (overlap 2000)"
    by (simp add: values_ok_def overlap_def)
  have p: "Map_has (cache (statCache (overlap 2000))) (key_of env1 opts1 ''b'')"
    by (simp add: k overlap_def Map_has_def)
  have tr: "trace (overlap 2000) = []"
    by (simp add: overlap_def initial_world_def)
  show ?thesis
    using h1 h2 h4 h5 p tr
      negative_cache_first [OF h1 h2 h3 h4, where ?w0.0 = "overlap 2000" and ?env0.0 = env1
        and paths = "[''a'', ''b'']" and ?opts0.0 = opts1]
    by (simp add: k)
qed

text \<open>
  The statement of C10 fails where the negative entry has expired: the key is in both
  Maps, yet the read of the negative cache deletes the entry, the positive cache is read
  next, and the candidate is returned.
\<close>

theorem negative_cache_first_counterexample:
  "Map_has (cache (negativeCache (overlap 500))) (key_of env1 opts1 ''b'') \<and>
   Map_has (cache (statCache (overlap 500))) (key_of env1 opts1 ''b'') \<and>
   fst (locatePathSync env1 [''b''] opts1 (overlap 500)) = Inr (Some ''b'') \<and>
   fst (locatePath env1 [''b''] opts1 [Start] (overlap 500)) = Fulfilled (Some ''b'') \<and>
   trace (snd (locatePathSync env1 [''b''] opts1 (overlap 500)))
     = [CacheGet Negative ''/d/b:file:true'', CacheGet Positive ''/d/b:file:true''] \<and>
   trace (snd (locatePath env1 [''b''] opts1 [Start] (overlap 500)))
     = [CacheGet Negative ''/d/b:file:true'', CacheGet Positive ''/d/b:file:true'']"
  by code_simp


section \<open>Calls without the cache\<close>

lemma body_nocache:
  "\<not> useCache opts \<Longrightarrow>
     locatePathSync_body env opts (toPath env (cwd opts)) p w
       = (fs_matches env opts (resolved env opts p), probe (resolved env opts p) w)"
  using checkPathSync_answer [of env "resolved env opts p" "key_of env opts p" opts False w]
    checkPathSync_world [of env "resolved env opts p" "key_of env opts p" opts False w]
  by (simp add: body_resolved prod_eq_iff)

lemma loop_nocache:
  assumes "\<not> useCache opts"
  shows "locatePathSync_loop env opts (toPath env (cwd opts)) paths w
           = (find (\<lambda>p. fs_matches env opts (resolved env opts p)) paths,
              w\<lparr>trace := trace w @ map Probe (map (resolved env opts)
                    (examined (\<lambda>p. fs_matches env opts (resolved env opts p)) paths))\<rparr>)"
proof (induction paths arbitrary: w)
  case Nil
  then show ?case by simp
next
  case (Cons p ps)
  show ?case
    by (simp add: body_nocache [OF assms] Cons.IH probe_def)
qed

text \<open>
  Without the cache the checks that have been started are a prefix of the list and each
  has added its probe to the trace; nothing else has changed.
\<close>

lemma nocache_step:
  assumes nc: "\<not> useCache opts"
    and inv: "\<exists>n\<le>length paths. (\<forall>i<length paths. (tasks s ! i = Queued) = (n \<le> i)) \<and>
            pworld s = w\<lparr>trace := trace w @ map Probe (map (resolved env opts) (take n paths))\<rparr>"
    and len: "length (tasks s) = length paths"
  shows "\<exists>n\<le>length paths.
           (\<forall>i<length paths.
              (tasks (pLocate_step env opts (toPath env (cwd opts)) paths s st) ! i = Queued) = (n \<le> i)) \<and>
           pworld (pLocate_step env opts (toPath env (cwd opts)) paths s st)
             = w\<lparr>trace := trace w @ map Probe (map (resolved env opts) (take n paths))\<rparr>"
proof -
  obtain n where n: "n \<le> length paths" "\<forall>i<length paths. (tasks s ! i = Queued) = (n \<le> i)"
      "pworld s = w\<lparr>trace := trace w @ map Probe (map (resolved env opts) (take n paths))\<rparr>"
    using inv by blast
  show ?thesis
  proof (cases rule: pLocate_step_cases [of env opts "toPath env (cwd opts)" paths s st])
    case idle
    then show ?thesis using inv by simp
  next
    case (returned i b w')
    then show ?thesis using nc by (simp add: tester_begin_resolved)
  next
    case (awaiting i rp key w')
    have i: "i < length paths" "tasks s ! i = Queued" "\<forall>j<i. tasks s ! j \<noteq> Queued"
      using first_queued_Some [OF awaiting(2)] len by auto
    have "n \<le> i" using n(2) i(1,2) by simp
    moreover have "\<not> n < i"
    proof
      assume "n < i"
      then have "tasks s ! n = Queued" using n(2) i(1) by simp
      then show False using i(3) \<open>n < i\<close> by simp
    qed
    ultimately have ni: "i = n" by simp
    have w': "w' = probe (resolved env opts (paths ! n)) (pworld s)"
      using awaiting(3) nc ni by (auto simp: tester_begin_resolved)
    have tk: "take (Suc n) paths = take n paths @ [paths ! n]"
      using i(1) ni by (simp add: take_Suc_conv_app_nth)
    have q: "\<forall>j<length paths. ((tasks s)[n := Running rp key] ! j = Queued) = (Suc n \<le> j)"
    proof (intro allI impI)
      fix j assume j: "j < length paths"
      show "((tasks s)[n := Running rp key] ! j = Queued) = (Suc n \<le> j)"
      proof (cases "j = n")
        case True
        then show ?thesis using len j by simp
      next
        case False
        then show ?thesis using n(2) j by auto
      qed
    qed
    have "pworld (pLocate_step env opts (toPath env (cwd opts)) paths s st)
            = w\<lparr>trace := trace w @ map Probe (map (resolved env opts) (take (Suc n) paths))\<rparr>"
      unfolding awaiting(4) by (simp add: w' n(3) tk probe_def)
    moreover have "\<forall>j<length paths.
        (tasks (pLocate_step env opts (toPath env (cwd opts)) paths s st) ! j = Queued) = (Suc n \<le> j)"
      unfolding awaiting(4) using q ni by simp
    moreover have "Suc n \<le> length paths" using i(1) ni by simp
    ultimately show ?thesis by blast
  next
    case (finished i rp key b w')
    have w': "w' = pworld s"
      using finished(4) nc tester_resume_world [of env opts rp key "pworld s"] by simp
    have q: "\<forall>j<length paths. ((tasks s)[i := Settled b] ! j = Queued) = (n \<le> j)"
    proof (intro allI impI)
      fix j assume j: "j < length paths"
      show "((tasks s)[i := Settled b] ! j = Queued) = (n \<le> j)"
      proof (cases "j = i")
        case True
        then show ?thesis using finished(2,3) n(2) j by auto
      next
        case False
        then show ?thesis using n(2) j by auto
      qed
    qed
    show ?thesis
      unfolding finished(5) settle_def using q n(1,3) w' by auto
  qed
qed

lemma nocache_run:
  assumes "\<not> useCache opts"
  shows "\<exists>n\<le>length paths.
           pworld (pLocate_run env opts (toPath env (cwd opts)) paths sched w)
             = w\<lparr>trace := trace w @ map Probe (map (resolved env opts) (take n paths))\<rparr>"
proof -
  have "length (tasks (pLocate_run env opts (toPath env (cwd opts)) paths sched w)) = length paths \<and>
        (\<exists>n\<le>length paths.
           (\<forall>i<length paths.
              (tasks (pLocate_run env opts (toPath env (cwd opts)) paths sched w) ! i = Queued) = (n \<le> i)) \<and>
           pworld (pLocate_run env opts (toPath env (cwd opts)) paths sched w)
             = w\<lparr>trace := trace w @ map Probe (map (resolved env opts) (take n paths))\<rparr>)"
  proof (rule pLocate_run_invariant [where P = "\<lambda>s::pool. length (tasks s) = length paths \<and>
        (\<exists>n\<le>length paths. (\<forall>i<length paths. (tasks s ! i = Queued) = (n \<le> i)) \<and>
           pworld s = w\<lparr>trace := trace w @ map Probe (map (resolved env opts) (take n paths))\<rparr>)"])
    show "length (tasks \<lparr>tasks = replicate (length paths) Queued, first_true = None, pworld = w\<rparr>)
            = length paths \<and>
          (\<exists>n\<le>length paths.
             (\<forall>i<length paths.
                (tasks \<lparr>tasks = replicate (length paths) Queued, first_true = None, pworld = w\<rparr> ! i
                   = Queued) = (n \<le> i)) \<and>
             pworld \<lparr>tasks = replicate (length paths) Queued, first_true = None, pworld = w\<rparr>
               = w\<lparr>trace := trace w @ map Probe (map (resolved env opts) (take n paths))\<rparr>)"
      by (auto intro!: exI [of _ 0])
  next
    fix s :: pool and st
    assume a: "length (tasks s) = length paths \<and>
        (\<exists>n\<le>length paths. (\<forall>i<length paths. (tasks s ! i = Queued) = (n \<le> i)) \<and>
           pworld s = w\<lparr>trace := trace w @ map Probe (map (resolved env opts) (take n paths))\<rparr>)"
    have l: "length (tasks (pLocate_step env opts (toPath env (cwd opts)) paths s st)) = length paths"
      using a
      by (cases rule: pLocate_step_cases [of env opts "toPath env (cwd opts)" paths s st])
        (simp_all add: settle_def)
    show "length (tasks (pLocate_step env opts (toPath env (cwd opts)) paths s st)) = length paths \<and>
        (\<exists>n\<le>length paths.
           (\<forall>i<length paths.
              (tasks (pLocate_step env opts (toPath env (cwd opts)) paths s st) ! i = Queued) = (n \<le> i)) \<and>
           pworld (pLocate_step env opts (toPath env (cwd opts)) paths s st)
             = w\<lparr>trace := trace w @ map Probe (map (resolved env opts) (take n paths))\<rparr>)"
      using l nocache_step [OF assms, of paths s w env st] a by blast
  qed
  then show ?thesis by blast
qed


lemma unordered_result:
  assumes a: "answers_fs env opts paths s" and "\<not> preserveOrder opts"
    and f: "pLocate_promise opts paths s = Fulfilled r"
  shows "case r of
           Some p \<Rightarrow> p \<in> set paths \<and> fs_matches env opts (resolved env opts p)
         | None \<Rightarrow> \<forall>p\<in>set paths. \<not> fs_matches env opts (resolved env opts p)"
proof (cases "first_true s")
  case (Some i)
  then have i: "i < length paths" "tasks s ! i = Settled True"
    using a by (simp_all add: answers_fs_def pool_ok_def)
  then have "fs_matches env opts (resolved env opts (paths ! i))"
    using a by (simp add: answers_fs_def)
  moreover have "r = Some (paths ! i)"
    using f assms(2) Some by (simp add: pLocate_promise_def)
  ultimately show ?thesis using i(1) by simp
next
  case None
  then have r: "r = None" and all: "all_settled_false (tasks s)"
    using f assms(2) by (simp_all add: pLocate_promise_def split: if_splits)
  have "\<not> fs_matches env opts (resolved env opts p)" if mem: "p \<in> set paths" for p
  proof -
    obtain j where j: "j < length paths" "p = paths ! j"
      using mem unfolding in_set_conv_nth by auto
    have "tasks s ! j = Settled False"
      using all j(1) a by (simp add: all_settled_false_def list_all_length answers_fs_def pool_ok_def)
    then show ?thesis
      using a j by (auto simp: answers_fs_def)
  qed
  then show ?thesis using r by simp
qed

text \<open>
  C9. With \<^verbatim>\<open>useCache\<close> false a call of either locator leaves both caches and the clock
  as they were and adds nothing but probes to the trace: \<^verbatim>\<open>locatePathSync\<close> probes the
  resolved candidates up to and including the first match, \<^verbatim>\<open>locatePath\<close> those of the
  checks the schedule has started. The result is what the probes say: the first candidate
  whose probe matches, for \<^verbatim>\<open>locatePathSync\<close> and for \<^verbatim>\<open>locatePath\<close> in order; without
  \<^verbatim>\<open>preserveOrder\<close> some candidate whose probe matches, or absent when no probe matches.
\<close>

theorem no_cache_access_without_useCache:
  assumes "\<not> useCache opts"
  shows "snd (locatePathSync env paths opts w)
           = w\<lparr>trace := trace w @ map Probe (map (resolved env opts)
                 (if valid_type (type opts)
                  then examined (\<lambda>p. fs_matches env opts (resolved env opts p)) paths
                  else []))\<rparr> \<and>
         (\<exists>n\<le>length paths. snd (locatePath env paths opts sched w)
             = w\<lparr>trace := trace w @ map Probe (map (resolved env opts) (take n paths))\<rparr>) \<and>
         negativeCache (snd (locatePathSync env paths opts w)) = negativeCache w \<and>
         statCache (snd (locatePathSync env paths opts w)) = statCache w \<and>
         negativeCache (snd (locatePath env paths opts sched w)) = negativeCache w \<and>
         statCache (snd (locatePath env paths opts sched w)) = statCache w \<and>
         list_all (\<lambda>e. \<not> is_cache_event e) (new_events w (snd (locatePathSync env paths opts w))) \<and>
         list_all (\<lambda>e. \<not> is_cache_event e) (new_events w (snd (locatePath env paths opts sched w))) \<and>
         (valid_type (type opts) \<longrightarrow>
            fst (locatePathSync env paths opts w)
              = Inr (find (\<lambda>p. fs_matches env opts (resolved env opts p)) paths) \<and>
            (\<forall>r. fst (locatePath env paths opts sched w) = Fulfilled r \<longrightarrow>
               (if preserveOrder opts
                then r = find (\<lambda>p. fs_matches env opts (resolved env opts p)) paths
                else case r of
                       Some p \<Rightarrow> p \<in> set paths \<and> fs_matches env opts (resolved env opts p)
                     | None \<Rightarrow> \<forall>p\<in>set paths. \<not> fs_matches env opts (resolved env opts p))))"
proof -
  let ?f = "\<lambda>p. fs_matches env opts (resolved env opts p)"
  have sw: "snd (locatePathSync env paths opts w)
           = w\<lparr>trace := trace w @ map Probe (map (resolved env opts)
                 (if valid_type (type opts) then examined ?f paths else []))\<rparr>"
  proof (cases "valid_type (type opts)")
    case True
    then show ?thesis by (simp add: locatePathSync_valid loop_nocache [OF assms])
  next
    case False
    then show ?thesis by (simp add: locatePathSync_def checkType_invalid)
  qed
  have aw: "\<exists>n\<le>length paths. snd (locatePath env paths opts sched w)
             = w\<lparr>trace := trace w @ map Probe (map (resolved env opts) (take n paths))\<rparr>"
  proof (cases "valid_type (type opts)")
    case True
    then show ?thesis
      using nocache_run [OF assms, of paths env sched w] by (simp add: locatePath_valid)
  next
    case False
    then have "snd (locatePath env paths opts sched w)
        = w\<lparr>trace := trace w @ map Probe (map (resolved env opts) (take 0 paths))\<rparr>"
      by (simp add: locatePath_def checkType_invalid)
    then show ?thesis by blast
  qed
  then obtain n where n: "snd (locatePath env paths opts sched w)
             = w\<lparr>trace := trace w @ map Probe (map (resolved env opts) (take n paths))\<rparr>"
    by blast
  have ev: "list_all (\<lambda>e. \<not> is_cache_event e) (new_events w (w\<lparr>trace := trace w @ map Probe ps\<rparr>))"
    for ps
    by (simp add: list_all_iff is_cache_event_def new_events_def)
  have e1: "list_all (\<lambda>e. \<not> is_cache_event e) (new_events w (snd (locatePathSync env paths opts w)))"
    unfolding sw by (rule ev)
  have e2: "list_all (\<lambda>e. \<not> is_cache_event e) (new_events w (snd (locatePath env paths opts sched w)))"
    unfolding n by (rule ev)
  have c1: "negativeCache (snd (locatePathSync env paths opts w)) = negativeCache w"
    and c2: "statCache (snd (locatePathSync env paths opts w)) = statCache w"
    unfolding sw by simp_all
  have c3: "negativeCache (snd (locatePath env paths opts sched w)) = negativeCache w"
    and c4: "statCache (snd (locatePath env paths opts sched w)) = statCache w"
    unfolding n by simp_all
  have sr: "fst (locatePathSync env paths opts w) = Inr (find ?f paths)"
    if "valid_type (type opts)"
    using that by (simp add: locatePathSync_valid loop_nocache [OF assms])
  have ar: "if preserveOrder opts then r = find ?f paths
            else case r of
                   Some p \<Rightarrow> p \<in> set paths \<and> fs_matches env opts (resolved env opts p)
                 | None \<Rightarrow> \<forall>p\<in>set paths. \<not> fs_matches env opts (resolved env opts p)"
    if v: "valid_type (type opts)" and f: "fst (locatePath env paths opts sched w) = Fulfilled r" for r
  proof (cases "preserveOrder opts")
    case True
    then show ?thesis
      using locatePath_coherent [of opts env w paths sched r] assms v f by simp
  next
    case False
    have "answers_fs env opts paths (pLocate_run env opts (toPath env (cwd opts)) paths sched w)"
      using assms by (intro answers_fs_run) simp
    then show ?thesis
      using unordered_result [OF _ False, of env paths _ r] f v False
      by (simp add: locatePath_valid)
  qed
  from sw aw c1 c2 c3 c4 e1 e2 sr ar show ?thesis by blast
qed


theorem no_cache_access_without_useCache_witness:
  "\<not> useCache opts_nocache \<and> valid_type (type opts_nocache) \<and>
   locatePathSync env1 [''a'', ''b'', ''dir''] opts_nocache (overlap 2000)
     = (Inr (Some ''b''), (overlap 2000)\<lparr>trace := [Probe ''/d/a'', Probe ''/d/b'']\<rparr>) \<and>
   locatePath env1 [''a'', ''b'', ''dir''] opts_nocache [Start, Start, Finish 1, Finish 0]
       (overlap 2000)
     = (Fulfilled (Some ''b''), (overlap 2000)\<lparr>trace := [Probe ''/d/a'', Probe ''/d/b'']\<rparr>) \<and>
   find (\<lambda>p. fs_matches env1 opts_nocache (resolved env1 opts_nocache p)) [''a'', ''b'', ''dir'']
     = Some ''b''"
proof -
  have h: "\<not> useCache opts_nocache"
    by (simp add: opts_nocache_def)
  have v: "valid_type (type opts_nocache)"
    by (simp add: opts_nocache_def default_options_def valid_type_def)
  have s: "locatePathSync env1 [''a'', ''b'', ''dir''] opts_nocache (overlap 2000)
     = (Inr (Some ''b''), (overlap 2000)\<lparr>trace := [Probe ''/d/a'', Probe ''/d/b'']\<rparr>)"
    by code_simp
  have a: "locatePath env1 [''a'', ''b'', ''dir''] opts_nocache [Start, Start, Finish 1, Finish 0]
       (overlap 2000)
     = (Fulfilled (Some ''b''), (overlap 2000)\<lparr>trace := [Probe ''/d/a'', Probe ''/d/b'']\<rparr>)"
    by code_simp
  have "fst (locatePathSync env1 [''a'', ''b'', ''dir''] opts_nocache (overlap 2000))
          = Inr (find (\<lambda>p. fs_matches env1 opts_nocache (resolved env1 opts_nocache p))
                   [''a'', ''b'', ''dir''])"
    using v no_cache_access_without_useCache [OF h, where env = env1
        and paths = "[''a'', ''b'', ''dir'']" and w = "overlap 2000"
        and sched = "[Start, Start, Finish 1, Finish 0]"]
    by blast
  then have "find (\<lambda>p. fs_matches env1 opts_nocache (resolved env1 opts_nocache p))
               [''a'', ''b'', ''dir''] = Some ''b''"
    by (simp add: s)
  then show ?thesis
    using h v s a by blast
qed


section \<open>The asynchronous locator against the synchronous one\<close>

lemma coherent_initial: "coherent env opts initial_world"
  by (simp add: coherent_def initial_world_def LRUCache_new_def)

text \<open>
  C1, as the code has it. Take a valid type selector, \<^verbatim>\<open>preserveOrder\<close> true, and caches that
  agree with the filesystem on the keys of this query (empty caches do), or \<^verbatim>\<open>useCache\<close>
  false. Then under every schedule and every concurrency bound, once the promise of
  \<^verbatim>\<open>locatePath\<close> is fulfilled its value is the first candidate in list order whose probe
  matches, absent if there is none, and that is what \<^verbatim>\<open>locatePathSync\<close> returns for the
  same list, options and state. With a concurrency bound of at least one, or none, the
  schedule that runs the checks one after the other fulfils the promise.
\<close>

theorem locatePath_agrees_with_locatePathSync:
  assumes "valid_type (type opts)" and "preserveOrder opts"
    and "useCache opts \<longrightarrow> coherent env opts w"
  shows "(fst (locatePath env paths opts sched w) = Fulfilled r \<longrightarrow>
            r = find (\<lambda>p. fs_matches env opts (resolved env opts p)) paths \<and>
            fst (locatePathSync env paths opts w) = Inr r) \<and>
         fst (locatePathSync env paths opts w)
           = Inr (find (\<lambda>p. fs_matches env opts (resolved env opts p)) paths) \<and>
         (concurrency opts \<noteq> Some 0 \<longrightarrow>
            fst (locatePath env paths opts (sequential (length paths)) w)
              = Fulfilled (find (\<lambda>p. fs_matches env opts (resolved env opts p)) paths))"
proof -
  let ?f = "\<lambda>p. fs_matches env opts (resolved env opts p)"
  have sync: "fst (locatePathSync env paths opts w) = Inr (find ?f paths)"
    using assms(1) loop_coherent [OF assms(3), of paths] by (simp add: locatePathSync_valid)
  have async: "r = find ?f paths"
    if "fst (locatePath env paths opts sched w) = Fulfilled r" for sched r
    using locatePath_coherent [OF assms(3,1,2) that] .
  have seq: "fst (locatePath env paths opts (sequential (length paths)) w) = Fulfilled (find ?f paths)"
    if bound: "concurrency opts \<noteq> Some 0"
  proof -
    obtain r' where "fst (locatePath env paths opts (sequential (length paths)) w) = Fulfilled r'"
      using sequential_fulfils [OF bound assms(2), of paths env "toPath env (cwd opts)" w] assms(1)
      by (auto simp: locatePath_valid)
    then show ?thesis using async by simp
  qed
  from sync async [of sched r] seq show ?thesis by simp
qed

theorem locatePath_agrees_with_locatePathSync_witness:
  "valid_type (type opts1) \<and> preserveOrder opts1 \<and> coherent env1 opts1 initial_world \<and>
   concurrency (opts1\<lparr>concurrency := Some 1\<rparr>) \<noteq> Some 0 \<and>
   fst (locatePath env1 [''a'', ''b'', ''dir''] opts1 [Start, Start, Start, Finish 1, Finish 0]
          initial_world) = Fulfilled (Some ''b'') \<and>
   fst (locatePathSync env1 [''a'', ''b'', ''dir''] opts1 initial_world) = Inr (Some ''b'') \<and>
   find (\<lambda>p. fs_matches env1 opts1 (resolved env1 opts1 p)) [''a'', ''b'', ''dir''] = Some ''b'' \<and>
   fst (locatePath env1 [''a'', ''b'', ''dir''] (opts1\<lparr>concurrency := Some 1\<rparr>)
          (sequential (length [''a'', ''b'', ''dir''])) initial_world) = Fulfilled (Some ''b'')"
proof -
  have v: "valid_type (type opts1)" and p: "preserveOrder opts1"
    by (simp_all add: opts1_def default_options_def valid_type_def)
  have c: "useCache opts1 \<longrightarrow> coherent env1 opts1 initial_world"
    by (simp add: coherent_initial)
  have v': "valid_type (type (opts1\<lparr>concurrency := Some 1\<rparr>))"
    and p': "preserveOrder (opts1\<lparr>concurrency := Some 1\<rparr>)"
    by (simp_all add: opts1_def default_options_def valid_type_def)
  have c': "useCache (opts1\<lparr>concurrency := Some 1\<rparr>)
              \<longrightarrow> coherent env1 (opts1\<lparr>concurrency := Some 1\<rparr>) initial_world"
    by (simp add: coherent_initial)
  have a: "fst (locatePath env1 [''a'', ''b'', ''dir''] opts1
             [Start, Start, Start, Finish 1, Finish 0] initial_world) = Fulfilled (Some ''b'')"
    by code_simp
  have f: "find (\<lambda>p. fs_matches env1 (opts1\<lparr>concurrency := Some 1\<rparr>)
                   (resolved env1 (opts1\<lparr>concurrency := Some 1\<rparr>) p)) [''a'', ''b'', ''dir'']
             = Some ''b''"
    by code_simp
  have b: "concurrency (opts1\<lparr>concurrency := Some 1\<rparr>) \<noteq> Some 0"
    by simp
  have t1: "Some ''b'' = find (\<lambda>p. fs_matches env1 opts1 (resolved env1 opts1 p)) [''a'', ''b'', ''dir'']
        \<and> fst (locatePathSync env1 [''a'', ''b'', ''dir''] opts1 initial_world) = Inr (Some ''b'')"
    using a locatePath_agrees_with_locatePathSync [OF v p c, where paths = "[''a'', ''b'', ''dir'']"
        and sched = "[Start, Start, Start, Finish 1, Finish 0]" and r = "Some ''b''"]
    by blast
  have "fst (locatePath env1 [''a'', ''b'', ''dir''] (opts1\<lparr>concurrency := Some 1\<rparr>)
          (sequential (length [''a'', ''b'', ''dir''])) initial_world)
      = Fulfilled (find (\<lambda>p. fs_matches env1 (opts1\<lparr>concurrency := Some 1\<rparr>)
                   (resolved env1 (opts1\<lparr>concurrency := Some 1\<rparr>) p)) [''a'', ''b'', ''dir''])"
    using b locatePath_agrees_with_locatePathSync [OF v' p' c', where paths = "[''a'', ''b'', ''dir'']"]
    by blast
  then have t2: "fst (locatePath env1 [''a'', ''b'', ''dir''] (opts1\<lparr>concurrency := Some 1\<rparr>)
          (sequential (length [''a'', ''b'', ''dir''])) initial_world) = Fulfilled (Some ''b'')"
    unfolding f .
  have t1': "find (\<lambda>p. fs_matches env1 opts1 (resolved env1 opts1 p)) [''a'', ''b'', ''dir'']
               = Some ''b''"
    using t1 by simp
  from v p coherent_initial [of env1 opts1] b a t1 t1' t2 show ?thesis
    by blast
qed

text \<open>
  The statement of C1 fails on a stale negative entry at the edge of its lifetime. The file
  \<^verbatim>\<open>/d/b\<close> exists, the negative cache still holds its key, written at 1000 ms, and the
  clock reads 6000 ms and then 6001 ms. \<^verbatim>\<open>locatePathSync\<close> probes \<^verbatim>\<open>a\<close> first and reads the
  entry for \<^verbatim>\<open>b\<close> at 6001 ms, when it has expired, so it probes \<^verbatim>\<open>b\<close> and returns it.
  \<^verbatim>\<open>locatePath\<close> starts both checks at once, reads the entry at 6000 ms, when it is still
  valid, and resolves to absent.
\<close>

theorem locatePath_agrees_with_locatePathSync_counterexample:
  "valid_type (type opts1) \<and> preserveOrder opts1 \<and>
   fst (locatePathSync env1 [''a'', ''b''] opts1 stale1) = Inr (Some ''b'') \<and>
   fst (locatePath env1 [''a'', ''b''] opts1 [Start, Start, Finish 0] stale1) = Fulfilled None \<and>
   find (\<lambda>p. fs_matches env1 opts1 (resolved env1 opts1 p)) [''a'', ''b''] = Some ''b''"
  by code_simp

section \<open>Calls repeated while nothing expires and nothing is evicted\<close>

lemma probes_of_append [simp]: "probes_of (xs @ ys) = probes_of xs @ probes_of ys"
  by (simp add: probes_of_def)

lemma probes_of_simps [simp]:
  "probes_of [] = []" "probes_of (Probe p # evs) = p # probes_of evs"
  "probes_of (CacheGet cid k # evs) = probes_of evs"
  "probes_of (CacheSet cid k v # evs) = probes_of evs"
  by (simp_all add: probes_of_def)

lemma fresh_cacheD:
  "fresh_cache env c \<Longrightarrow> (k, e) \<in> set (cache c) \<Longrightarrow> Date_now env n - timestamp e \<le> ttl c"
  unfolding fresh_cache_def by blast

lemma fresh_cacheI:
  assumes "\<And>n m. Date_now env n - Date_now env m \<le> ttl c"
    and "\<And>k e n. (k, e) \<in> set (cache c) \<Longrightarrow> Date_now env n - timestamp e \<le> ttl c"
  shows "fresh_cache env c"
  unfolding fresh_cache_def using assms by blast

lemma fresh_cache_window:
  "fresh_cache env c \<Longrightarrow> Date_now env n - Date_now env m \<le> ttl c"
  unfolding fresh_cache_def by blast

lemma get_fresh:
  assumes "fresh_cache env c"
  shows "fst (LRUCache_get (Date_now env n) k c) = map_option entry_value (map_of (cache c) k)"
    and "map_of (cache (snd (LRUCache_get (Date_now env n) k c))) = map_of (cache c)"
    and "fresh_cache env (snd (LRUCache_get (Date_now env n) k c))"
proof -
  have live: "\<not> Date_now env n - timestamp e > ttl c" if "map_of (cache c) k = Some e" for e
    using fresh_cacheD [OF assms map_of_SomeD [OF that], of n] by simp
  show "fst (LRUCache_get (Date_now env n) k c) = map_option entry_value (map_of (cache c) k)"
    using live by (auto simp: LRUCache_get_def Map_defs split: option.splits)
  show "map_of (cache (snd (LRUCache_get (Date_now env n) k c))) = map_of (cache c)"
    using live
    by (auto simp: LRUCache_get_def Map_defs AList.update_conv' AList.delete_conv' fun_eq_iff
        split: option.splits)
  show "fresh_cache env (snd (LRUCache_get (Date_now env n) k c))"
  proof (rule fresh_cacheI)
    show "Date_now env i - Date_now env j \<le> ttl (snd (LRUCache_get (Date_now env n) k c))" for i j
      using fresh_cache_window [OF assms] by simp
    show "Date_now env i - timestamp e \<le> ttl (snd (LRUCache_get (Date_now env n) k c))"
      if "(k', e) \<in> set (cache (snd (LRUCache_get (Date_now env n) k c)))" for k' e i
      using that entries_get [of "Date_now env n" k c] fresh_cacheD [OF assms, of k' e i]
      by auto
  qed
qed

lemma set_room:
  assumes "fresh_cache env c" and "map_of (cache c) k \<noteq> None \<or> length (cache c) < maxSize c"
  shows "map_of (cache (LRUCache_set (Date_now env n) k v c))
           = (map_of (cache c))(k \<mapsto> \<lparr>entry_value = v, timestamp = Date_now env n\<rparr>)"
    and "fresh_cache env (LRUCache_set (Date_now env n) k v c)"
    and "length (cache (LRUCache_set (Date_now env n) k v c)) \<le> Suc (length (cache c))"
proof -
  show "map_of (cache (LRUCache_set (Date_now env n) k v c))
           = (map_of (cache c))(k \<mapsto> \<lparr>entry_value = v, timestamp = Date_now env n\<rparr>)"
    using assms(2)
    by (auto simp: LRUCache_set_def Map_defs AList.update_conv' AList.delete_conv' Let_def)
  show "fresh_cache env (LRUCache_set (Date_now env n) k v c)"
  proof (rule fresh_cacheI)
    show "Date_now env i - Date_now env j \<le> ttl (LRUCache_set (Date_now env n) k v c)" for i j
      using fresh_cache_window [OF assms(1)] by simp
    show "Date_now env i - timestamp e \<le> ttl (LRUCache_set (Date_now env n) k v c)"
      if "(k', e) \<in> set (cache (LRUCache_set (Date_now env n) k v c))" for k' e i
      using that entries_set [of "Date_now env n" k v c] fresh_cacheD [OF assms(1), of k' e i]
        fresh_cache_window [OF assms(1), of i n]
      by auto
  qed
  have "length (AList.update k x (AList.delete k (cache c))) \<le> Suc (length (cache c))" for x
    using length_update_le [of k x "AList.delete k (cache c)"]
      AList.length_delete_le [of k "cache c"] by simp
  then show "length (cache (LRUCache_set (Date_now env n) k v c)) \<le> Suc (length (cache c))"
    using assms(2) length_update_le [of k _ "cache c"]
    by (auto simp: LRUCache_set_def Map_defs Let_def)
qed


lemma cached_answer_cong:
  "map_of (cache (negativeCache w')) = map_of (cache (negativeCache w)) \<Longrightarrow>
   map_of (cache (statCache w')) = map_of (cache (statCache w)) \<Longrightarrow>
     cached_answer w' = cached_answer w"
  by (simp add: cached_answer_def says_no_def fun_eq_iff)

lemma room_mono: "room (Suc n) w \<Longrightarrow> room n w"
  by (simp add: room_def)

lemma world_get:
  assumes "fresh env w"
  shows "fst (cache_get env cid k w) = map_option entry_value (map_of (cache (the_cache cid w)) k)"
    and "cached_answer (snd (cache_get env cid k w)) = cached_answer w"
    and "fresh env (snd (cache_get env cid k w))"
    and "room n w \<Longrightarrow> room n (snd (cache_get env cid k w))"
    and "probes_of (trace (snd (cache_get env cid k w))) = probes_of (trace w)"
proof -
  have f: "fresh_cache env (negativeCache w)" "fresh_cache env (statCache w)"
    using assms by (simp_all add: fresh_def)
  show "fst (cache_get env cid k w) = map_option entry_value (map_of (cache (the_cache cid w)) k)"
    using f by (cases cid) (simp_all add: get_fresh the_cache_def)
  show "cached_answer (snd (cache_get env cid k w)) = cached_answer w"
    using f by (cases cid; intro cached_answer_cong) (simp_all add: get_fresh)
  show "fresh env (snd (cache_get env cid k w))"
    using f by (cases cid) (simp_all add: fresh_def get_fresh)
  show "room n (snd (cache_get env cid k w))" if "room n w"
    using that length_get_le [of "Date_now env (clock w)" k "negativeCache w"]
      length_get_le [of "Date_now env (clock w)" k "statCache w"]
    by (cases cid) (simp_all add: room_def)
  show "probes_of (trace (snd (cache_get env cid k w))) = probes_of (trace w)"
    by simp
qed

lemma world_set_Negative:
  assumes "fresh env w" and "room (Suc n) w"
  shows "cached_answer (cache_set env Negative k False w) = (cached_answer w)(k \<mapsto> False)"
    and "fresh env (cache_set env Negative k False w)"
    and "room n (cache_set env Negative k False w)"
    and "probes_of (trace (cache_set env Negative k False w)) = probes_of (trace w)"
proof -
  have f: "fresh_cache env (negativeCache w)" "fresh_cache env (statCache w)"
    using assms by (simp_all add: fresh_def)
  have r: "map_of (cache (negativeCache w)) k \<noteq> None
             \<or> length (cache (negativeCache w)) < maxSize (negativeCache w)"
    using assms(2) by (simp add: room_def)
  note s = set_room [OF f(1) r, of "clock w" False]
  show "cached_answer (cache_set env Negative k False w) = (cached_answer w)(k \<mapsto> False)"
    by (simp add: cached_answer_def says_no_def fun_eq_iff s(1))
  show "fresh env (cache_set env Negative k False w)"
    using f s(2) by (simp add: fresh_def)
  show "room n (cache_set env Negative k False w)"
    using assms(2) s(3) by (simp add: room_def)
  show "probes_of (trace (cache_set env Negative k False w)) = probes_of (trace w)"
    by simp
qed

lemma world_set_Positive:
  assumes "fresh env w" and "room (Suc n) w" and "cached_answer w k \<noteq> Some False"
  shows "cached_answer (cache_set env Positive k True w) = (cached_answer w)(k \<mapsto> True)"
    and "fresh env (cache_set env Positive k True w)"
    and "room n (cache_set env Positive k True w)"
    and "probes_of (trace (cache_set env Positive k True w)) = probes_of (trace w)"
proof -
  have f: "fresh_cache env (negativeCache w)" "fresh_cache env (statCache w)"
    using assms by (simp_all add: fresh_def)
  have r: "map_of (cache (statCache w)) k \<noteq> None
             \<or> length (cache (statCache w)) < maxSize (statCache w)"
    using assms(2) by (simp add: room_def)
  note s = set_room [OF f(2) r, of "clock w" True]
  have "\<not> says_no w k"
    using assms(3) by (auto simp: cached_answer_def)
  then show "cached_answer (cache_set env Positive k True w) = (cached_answer w)(k \<mapsto> True)"
    by (simp add: cached_answer_def says_no_def fun_eq_iff s(1))
  show "fresh env (cache_set env Positive k True w)"
    using f s(2) by (simp add: fresh_def)
  show "room n (cache_set env Positive k True w)"
    using assms(2) s(3) by (simp add: room_def)
  show "probes_of (trace (cache_set env Positive k True w)) = probes_of (trace w)"
    by simp
qed

lemma world_probe [simp]:
  "cached_answer (probe p w) = cached_answer w" "fresh env (probe p w) = fresh env w"
  "room n (probe p w) = room n w" "probes_of (trace (probe p w)) = probes_of (trace w) @ [p]"
  by (simp_all add: cached_answer_def says_no_def fresh_def room_def fun_eq_iff)

text \<open>What the two reads at the head of a check return when nothing has expired.\<close>

lemma reads_fresh:
  assumes "fresh env w"
  shows "(fst (cache_get env Negative k w) = Some False
          \<longrightarrow> cached_answer w k = Some False) \<and>
         (fst (cache_get env Negative k w) \<noteq> Some False
          \<longrightarrow> fst (cache_get env Positive k (snd (cache_get env Negative k w))) = cached_answer w k)"
proof -
  let ?w1 = "snd (cache_get env Negative k w)"
  have n: "fst (cache_get env Negative k w)
             = map_option entry_value (map_of (cache (negativeCache w)) k)"
    using world_get(1) [OF assms, of Negative k] by (simp add: the_cache_def)
  have f1: "fresh env ?w1"
    using assms by (rule world_get(3))
  have p: "fst (cache_get env Positive k ?w1)
             = map_option entry_value (map_of (cache (statCache w)) k)"
    using world_get(1) [OF f1, of Positive k] by (simp add: the_cache_def)
  show ?thesis
    unfolding n p by (auto simp: cached_answer_def says_no_def split: option.splits)
qed


lemma two_reads:
  fixes env :: env and w :: world and k :: string
  assumes "fresh env w"
  defines "w2 \<equiv> snd (cache_get env Positive k (snd (cache_get env Negative k w)))"
  shows "cached_answer w2 = cached_answer w" and "fresh env w2"
    and "room n w \<Longrightarrow> room n w2" and "probes_of (trace w2) = probes_of (trace w)"
    and "cached_answer (snd (cache_get env Negative k w)) = cached_answer w"
    and "fresh env (snd (cache_get env Negative k w))"
    and "room n w \<Longrightarrow> room n (snd (cache_get env Negative k w))"
    and "probes_of (trace (snd (cache_get env Negative k w))) = probes_of (trace w)"
proof -
  let ?w1 = "snd (cache_get env Negative k w)"
  have f1: "fresh env ?w1" using assms(1) by (rule world_get(3))
  show "cached_answer w2 = cached_answer w"
    unfolding w2_def using world_get(2) [OF f1] world_get(2) [OF assms(1)] by simp
  show "fresh env w2"
    unfolding w2_def using f1 by (rule world_get(3))
  show "room n w2" if "room n w"
    unfolding w2_def using world_get(4) [OF f1] world_get(4) [OF assms(1)] that by simp
  show "probes_of (trace w2) = probes_of (trace w)"
    unfolding w2_def by simp
  show "cached_answer ?w1 = cached_answer w" using assms(1) by (rule world_get(2))
  show "fresh env ?w1" by (rule f1)
  show "room n ?w1" if "room n w" using world_get(4) [OF assms(1)] that by simp
  show "probes_of (trace ?w1) = probes_of (trace w)" by simp
qed

lemma body_known:
  fixes env :: env and opts :: options and w :: world and p :: string
  assumes "useCache opts" and "fresh env w" and "cached_answer w (key_of env opts p) = Some b"
  defines "w' \<equiv> snd (locatePathSync_body env opts (toPath env (cwd opts)) p w)"
  shows "fst (locatePathSync_body env opts (toPath env (cwd opts)) p w) = b"
    and "cached_answer w' = cached_answer w" and "fresh env w'"
    and "room n w \<Longrightarrow> room n w'" and "probes_of (trace w') = probes_of (trace w)"
proof -
  let ?k = "key_of env opts p"
  note r = reads_fresh [OF assms(2), where k = ?k]
  note t = two_reads [OF assms(2), where k = ?k]
  have "fst (locatePathSync_body env opts (toPath env (cwd opts)) p w) = b \<and>
        cached_answer w' = cached_answer w \<and> fresh env w' \<and> (room n w \<longrightarrow> room n w') \<and>
        probes_of (trace w') = probes_of (trace w)"
  proof (cases "fst (cache_get env Negative ?k w) = Some False")
    case True
    then show ?thesis
      using assms(1,3) r t(5,6,7,8) unfolding w'_def body_resolved
      by (simp add: split_beta)
  next
    case False
    then show ?thesis
      using assms(1,3) r t(1,2,3,4) unfolding w'_def body_resolved
      by (simp add: split_beta)
  qed
  then show "fst (locatePathSync_body env opts (toPath env (cwd opts)) p w) = b"
    and "cached_answer w' = cached_answer w" and "fresh env w'"
    and "room n w \<Longrightarrow> room n w'" and "probes_of (trace w') = probes_of (trace w)"
    by simp_all
qed

lemma after_probe:
  fixes env :: env and opts :: options and w :: world and k rp :: string
  assumes "fresh env w" and "room (Suc n) w"
    and "cached_answer w k = None \<or> cached_answer w k = Some (fs_matches env opts rp)"
  defines "w' \<equiv> (if fs_matches env opts rp then cache_set env Positive k True w
                  else cache_set env Negative k False w)"
  shows "cached_answer w' = (cached_answer w)(k \<mapsto> fs_matches env opts rp)"
    and "fresh env w'" and "room n w'" and "probes_of (trace w') = probes_of (trace w)"
proof -
  have "cached_answer w' = (cached_answer w)(k \<mapsto> fs_matches env opts rp) \<and> fresh env w' \<and>
        room n w' \<and> probes_of (trace w') = probes_of (trace w)"
  proof (cases "fs_matches env opts rp")
    case True
    then have "cached_answer w k \<noteq> Some False" using assms(3) by auto
    then show ?thesis
      using True world_set_Positive [OF assms(1,2), of k] unfolding w'_def by simp
  next
    case False
    then show ?thesis
      using world_set_Negative [OF assms(1,2), of k] unfolding w'_def by simp
  qed
  then show "cached_answer w' = (cached_answer w)(k \<mapsto> fs_matches env opts rp)"
    and "fresh env w'" and "room n w'" and "probes_of (trace w') = probes_of (trace w)"
    by simp_all
qed

lemma body_unknown:
  fixes env :: env and opts :: options and w :: world and p :: string
  assumes "useCache opts" and "fresh env w" and "cached_answer w (key_of env opts p) = None"
    and "room (Suc n) w"
  defines "w' \<equiv> snd (locatePathSync_body env opts (toPath env (cwd opts)) p w)"
  shows "fst (locatePathSync_body env opts (toPath env (cwd opts)) p w)
           = fs_matches env opts (resolved env opts p)"
    and "cached_answer w'
           = (cached_answer w)(key_of env opts p \<mapsto> fs_matches env opts (resolved env opts p))"
    and "fresh env w'" and "room n w'"
    and "probes_of (trace w') = probes_of (trace w) @ [resolved env opts p]"
proof -
  let ?k = "key_of env opts p" and ?rp = "resolved env opts p"
  let ?w2 = "snd (cache_get env Positive ?k (snd (cache_get env Negative ?k w)))"
  note r = reads_fresh [OF assms(2), where k = ?k]
  note t = two_reads [OF assms(2), where k = ?k]
  have miss: "fst (cache_get env Negative ?k w) \<noteq> Some False"
    "fst (cache_get env Positive ?k (snd (cache_get env Negative ?k w))) = None"
    using r assms(3) by auto
  have b: "locatePathSync_body env opts (toPath env (cwd opts)) p w
             = checkPathSync env ?rp ?k (type opts) (allowSymlinks opts) True ?w2"
    using assms(1) miss unfolding body_resolved by (simp add: split_beta)
  have w': "w' = (if fs_matches env opts ?rp then cache_set env Positive ?k True (probe ?rp ?w2)
                  else cache_set env Negative ?k False (probe ?rp ?w2))"
    unfolding w'_def b checkPathSync_world by simp
  have p: "fresh env (probe ?rp ?w2)" "room (Suc n) (probe ?rp ?w2)"
    "cached_answer (probe ?rp ?w2) ?k = None
       \<or> cached_answer (probe ?rp ?w2) ?k = Some (fs_matches env opts ?rp)"
    using t(1,2) t(3) [OF assms(4)] assms(3) by simp_all
  note a = after_probe [OF p, folded w']
  show "fst (locatePathSync_body env opts (toPath env (cwd opts)) p w) = fs_matches env opts ?rp"
    unfolding b by (rule checkPathSync_answer)
  show "cached_answer w' = (cached_answer w)(?k \<mapsto> fs_matches env opts ?rp)"
    using a(1) t(1) by simp
  show "fresh env w'" by (rule a(2))
  show "room n w'" by (rule a(3))
  show "probes_of (trace w') = probes_of (trace w) @ [?rp]"
    using a(4) t(4) by simp
qed


lemma key_of_resolved:
  "key_of env opts q = key_of env opts p \<Longrightarrow> resolved env opts q = resolved env opts p"
  unfolding key_of_def by (rule cacheKey_same_suffix)

lemma ans_cong: "cached_answer w' = cached_answer w \<Longrightarrow> ans env opts w' = ans env opts w"
  by (simp add: ans_def fun_eq_iff)

lemma ans_after_step:
  assumes "cached_answer w' = (cached_answer w)(key_of env opts p \<mapsto> ans env opts w p)"
  shows "ans env opts w' = ans env opts w"
proof
  fix q
  show "ans env opts w' q = ans env opts w q"
  proof (cases "key_of env opts q = key_of env opts p")
    case True
    then have "ans env opts w q = ans env opts w p"
      using key_of_resolved [OF True] True by (simp add: ans_def split: option.splits)
    then show ?thesis using True assms by (simp add: ans_def)
  next
    case False
    then show ?thesis using assms by (simp add: ans_def)
  qed
qed

lemma body_step:
  fixes env :: env and opts :: options and w :: world and p :: string
  assumes "useCache opts" and "fresh env w" and "room (Suc n) w"
  defines "w' \<equiv> snd (locatePathSync_body env opts (toPath env (cwd opts)) p w)"
  shows "fst (locatePathSync_body env opts (toPath env (cwd opts)) p w) = ans env opts w p"
    and "cached_answer w' = (cached_answer w)(key_of env opts p \<mapsto> ans env opts w p)"
    and "fresh env w'" and "room n w'"
proof -
  have "fst (locatePathSync_body env opts (toPath env (cwd opts)) p w) = ans env opts w p \<and>
        cached_answer w' = (cached_answer w)(key_of env opts p \<mapsto> ans env opts w p) \<and>
        fresh env w' \<and> room n w'"
  proof (cases "cached_answer w (key_of env opts p)")
    case None
    then show ?thesis
      using body_unknown [OF assms(1,2) None assms(3)] unfolding w'_def by (simp add: ans_def)
  next
    case (Some b)
    have "(cached_answer w)(key_of env opts p \<mapsto> b) = cached_answer w"
      using Some by (simp add: fun_upd_idem)
    then show ?thesis
      using body_known [OF assms(1,2) Some] room_mono [OF assms(3)] Some unfolding w'_def
      by (simp add: ans_def)
  qed
  then show "fst (locatePathSync_body env opts (toPath env (cwd opts)) p w) = ans env opts w p"
    and "cached_answer w' = (cached_answer w)(key_of env opts p \<mapsto> ans env opts w p)"
    and "fresh env w'" and "room n w'"
    by simp_all
qed

lemma loop_first:
  assumes "useCache opts"
  shows "fresh env w \<Longrightarrow> room (length paths) w \<Longrightarrow>
     fst (locatePathSync_loop env opts (toPath env (cwd opts)) paths w)
       = find (ans env opts w) paths \<and>
     fresh env (snd (locatePathSync_loop env opts (toPath env (cwd opts)) paths w)) \<and>
     ans env opts (snd (locatePathSync_loop env opts (toPath env (cwd opts)) paths w))
       = ans env opts w \<and>
     (\<forall>p\<in>set (examined (ans env opts w) paths).
        cached_answer (snd (locatePathSync_loop env opts (toPath env (cwd opts)) paths w))
          (key_of env opts p) \<noteq> None) \<and>
     (\<forall>k. cached_answer w k \<noteq> None \<longrightarrow>
        cached_answer (snd (locatePathSync_loop env opts (toPath env (cwd opts)) paths w)) k \<noteq> None)"
proof (induction paths arbitrary: w)
  case Nil
  then show ?case by simp
next
  case (Cons p ps)
  let ?D = "toPath env (cwd opts)"
  define w1 where "w1 = snd (locatePathSync_body env opts ?D p w)"
  have r: "room (Suc (length ps)) w" using Cons.prems(2) by simp
  note st = body_step [OF assms Cons.prems(1) r, of p, folded w1_def]
  have body: "locatePathSync_body env opts ?D p w = (ans env opts w p, w1)"
    using st(1) by (simp add: w1_def prod_eq_iff)
  have a1: "ans env opts w1 = ans env opts w"
    using st(2) by (rule ans_after_step)
  have k1: "cached_answer w1 (key_of env opts p) \<noteq> None"
    using st(2) by simp
  have m1: "\<forall>k. cached_answer w k \<noteq> None \<longrightarrow> cached_answer w1 k \<noteq> None"
    using st(2) by simp
  show ?case
  proof (cases "ans env opts w p")
    case True
    then show ?thesis
      using body st(3) a1 k1 m1 by simp
  next
    case False
    let ?w' = "snd (locatePathSync_loop env opts ?D ps w1)"
    have eq: "locatePathSync_loop env opts ?D (p # ps) w = locatePathSync_loop env opts ?D ps w1"
      using body False by simp
    note IH = Cons.IH [OF st(3,4), unfolded a1]
    have "\<forall>q\<in>set (examined (ans env opts w) (p # ps)). cached_answer ?w' (key_of env opts q) \<noteq> None"
      using False IH k1 by auto
    moreover have "\<forall>k. cached_answer w k \<noteq> None \<longrightarrow> cached_answer ?w' k \<noteq> None"
      using IH m1 by blast
    ultimately show ?thesis
      unfolding eq using IH False by simp
  qed
qed

lemma loop_second:
  assumes "useCache opts"
  shows "fresh env w \<Longrightarrow>
     \<forall>p\<in>set (examined (ans env opts w) paths). cached_answer w (key_of env opts p) \<noteq> None \<Longrightarrow>
     fst (locatePathSync_loop env opts (toPath env (cwd opts)) paths w)
       = find (ans env opts w) paths \<and>
     probes_of (trace (snd (locatePathSync_loop env opts (toPath env (cwd opts)) paths w)))
       = probes_of (trace w)"
proof (induction paths arbitrary: w)
  case Nil
  then show ?case by simp
next
  case (Cons p ps)
  let ?D = "toPath env (cwd opts)"
  define w1 where "w1 = snd (locatePathSync_body env opts ?D p w)"
  obtain b where b: "cached_answer w (key_of env opts p) = Some b"
    using Cons.prems(2) by auto
  note st = body_known [OF assms Cons.prems(1) b, folded w1_def]
  have ab: "ans env opts w p = b"
    using b by (simp add: ans_def)
  have body: "locatePathSync_body env opts ?D p w = (b, w1)"
    using st(1) by (simp add: w1_def prod_eq_iff)
  have a1: "ans env opts w1 = ans env opts w"
    using st(2) by (rule ans_cong)
  show ?case
  proof (cases b)
    case True
    then show ?thesis using body st(5) ab by simp
  next
    case False
    have "\<forall>q\<in>set (examined (ans env opts w1) ps). cached_answer w1 (key_of env opts q) \<noteq> None"
      using Cons.prems(2) False ab st(2) a1 by simp
    then show ?thesis
      using Cons.IH [OF st(3), unfolded a1] body False ab st(5) a1 by simp
  qed
qed


lemma tester_begin_known:
  fixes env :: env and opts :: options and w :: world and p :: string
  assumes "useCache opts" and "fresh env w" and "cached_answer w (key_of env opts p) = Some b"
  defines "w' \<equiv> snd (tester_begin env opts (toPath env (cwd opts)) p w)"
  shows "fst (tester_begin env opts (toPath env (cwd opts)) p w) = Returned b"
    and "cached_answer w' = cached_answer w" and "fresh env w'"
    and "room n w \<Longrightarrow> room n w'" and "probes_of (trace w') = probes_of (trace w)"
proof -
  let ?k = "key_of env opts p"
  note r = reads_fresh [OF assms(2), where k = ?k]
  note t = two_reads [OF assms(2), where k = ?k]
  have "fst (tester_begin env opts (toPath env (cwd opts)) p w) = Returned b \<and>
        cached_answer w' = cached_answer w \<and> fresh env w' \<and> (room n w \<longrightarrow> room n w') \<and>
        probes_of (trace w') = probes_of (trace w)"
  proof (cases "fst (cache_get env Negative ?k w) = Some False")
    case True
    then show ?thesis
      using assms(1,3) r t(5,6,7,8) unfolding w'_def tester_begin_resolved
      by (simp add: split_beta)
  next
    case False
    then show ?thesis
      using assms(1,3) r t(1,2,3,4) unfolding w'_def tester_begin_resolved
      by (simp add: split_beta)
  qed
  then show "fst (tester_begin env opts (toPath env (cwd opts)) p w) = Returned b"
    and "cached_answer w' = cached_answer w" and "fresh env w'"
    and "room n w \<Longrightarrow> room n w'" and "probes_of (trace w') = probes_of (trace w)"
    by simp_all
qed

lemma tester_begin_unknown:
  fixes env :: env and opts :: options and w :: world and p :: string
  assumes "useCache opts" and "fresh env w" and "cached_answer w (key_of env opts p) = None"
  defines "w' \<equiv> snd (tester_begin env opts (toPath env (cwd opts)) p w)"
  shows "fst (tester_begin env opts (toPath env (cwd opts)) p w)
           = Awaiting (resolved env opts p) (key_of env opts p)"
    and "cached_answer w' = cached_answer w" and "fresh env w'"
    and "room n w \<Longrightarrow> room n w'"
proof -
  let ?k = "key_of env opts p"
  note r = reads_fresh [OF assms(2), where k = ?k]
  note t = two_reads [OF assms(2), where k = ?k]
  have miss: "fst (cache_get env Negative ?k w) \<noteq> Some False"
    "fst (cache_get env Positive ?k (snd (cache_get env Negative ?k w))) = None"
    using r assms(3) by auto
  have tb: "tester_begin env opts (toPath env (cwd opts)) p w
      = (Awaiting (resolved env opts p) ?k,
         probe (resolved env opts p)
           (snd (cache_get env Positive ?k (snd (cache_get env Negative ?k w)))))"
    using assms(1) miss unfolding tester_begin_resolved by (simp add: split_beta)
  show "fst (tester_begin env opts (toPath env (cwd opts)) p w)
           = Awaiting (resolved env opts p) (key_of env opts p)"
    unfolding tb by simp
  show "cached_answer w' = cached_answer w" "fresh env w'"
    unfolding w'_def tb using t(1,2) by simp_all
  show "room n w'" if "room n w"
    unfolding w'_def tb using t(3) [OF that] by simp
qed

lemma tester_resume_step:
  fixes env :: env and opts :: options and w :: world and k rp :: string
  assumes "useCache opts" and "fresh env w" and "room (Suc n) w"
    and "cached_answer w k = None \<or> cached_answer w k = Some (fs_matches env opts rp)"
  defines "w' \<equiv> snd (tester_resume env opts rp k w)"
  shows "cached_answer w' = (cached_answer w)(k \<mapsto> fs_matches env opts rp)"
    and "fresh env w'" and "room n w'" and "probes_of (trace w') = probes_of (trace w)"
proof -
  have w': "w' = (if fs_matches env opts rp then cache_set env Positive k True w
                  else cache_set env Negative k False w)"
    unfolding w'_def tester_resume_world using assms(1) by simp
  note a = after_probe [OF assms(2,3,4), folded w']
  show "cached_answer w' = (cached_answer w)(k \<mapsto> fs_matches env opts rp)"
    and "fresh env w'" and "room n w'" and "probes_of (trace w') = probes_of (trace w)"
    by (rule a)+
qed

lemma pending_update:
  "i < length ts \<Longrightarrow> pending (ts[i := t]) + unsettled (ts ! i) = pending ts + unsettled t"
proof (induction ts arbitrary: i)
  case Nil
  then show ?case by simp
next
  case (Cons x xs)
  show ?case
  proof (cases i)
    case 0
    then show ?thesis by (simp add: pending_def)
  next
    case (Suc j)
    then show ?thesis
      using Cons.IH [of j] Cons.prems by (simp add: pending_def)
  qed
qed

lemma pending_replicate [simp]: "pending (replicate n Queued) = n"
  by (induction n) (simp_all add: pending_def unsettled_def)

lemma room_le: "m \<le> n \<Longrightarrow> room n w \<Longrightarrow> room m w"
  by (simp add: room_def)

lemma task_ok_same:
  "cached_answer w' = cached_answer w \<Longrightarrow> task_ok env opts paths w0 w i t \<Longrightarrow>
     task_ok env opts paths w0 w' i t"
  by (simp add: task_ok_def split: task.splits)

lemma task_ok_update:
  assumes "cached_answer w' = (cached_answer w)(key_of env opts p \<mapsto> fs_matches env opts (resolved env opts p))"
    and "task_ok env opts paths w0 w i t"
  shows "task_ok env opts paths w0 w' i t"
proof (cases t)
  case Queued
  then show ?thesis by (simp add: task_ok_def)
next
  case (Settled b)
  then show ?thesis using assms by (simp add: task_ok_def)
next
  case (Running rp k)
  have r1: "rp = resolved env opts (paths ! i)" and r2: "k = key_of env opts (paths ! i)"
    and r3: "cached_answer w k = None \<or> cached_answer w k = Some (fs_matches env opts rp)"
    using assms(2) unfolding Running task_ok_def by auto
  have "cached_answer w' k = None \<or> cached_answer w' k = Some (fs_matches env opts rp)"
  proof (cases "k = key_of env opts p")
    case True
    have "resolved env opts (paths ! i) = resolved env opts p"
      by (rule key_of_resolved) (use r2 True in simp)
    then have "fs_matches env opts rp = fs_matches env opts (resolved env opts p)"
      unfolding r1 by (rule arg_cong)
    moreover have "cached_answer w' k = Some (fs_matches env opts (resolved env opts p))"
      unfolding assms(1) True by simp
    ultimately show ?thesis by simp
  next
    case False
    then have "cached_answer w' k = cached_answer w k"
      unfolding assms(1) by simp
    then show ?thesis using r3 by simp
  qed
  then show ?thesis
    unfolding Running task_ok_def using r1 r2 by simp
qed

lemma tasks_update:
  assumes "\<forall>j<n. P j (ts ! j)" and "i < n \<longrightarrow> P i t"
  shows "\<forall>j<n. P j (ts[i := t] ! j)"
proof (intro allI impI)
  fix j assume j: "j < n"
  show "P j (ts[i := t] ! j)"
  proof (cases "i = j \<and> i < length ts")
    case True
    then show ?thesis using j assms(2) by simp
  next
    case False
    then have "ts[i := t] ! j = ts ! j"
      by (cases "i < length ts") (auto simp: list_update_beyond)
    then show ?thesis using j assms(1) by simp
  qed
qed

lemma first_runI:
  assumes "length ts = length paths" and "fresh env w" and "ans env opts w = ans env opts w0"
    and "room (pending ts) w" and "\<forall>i<length paths. task_ok env opts paths w0 w i (ts ! i)"
  shows "first_run env opts paths w0 (s\<lparr>tasks := ts, first_true := ft, pworld := w\<rparr>)"
    and "first_run env opts paths w0 (s\<lparr>tasks := ts, pworld := w\<rparr>)"
  using assms by (simp_all add: first_run_def)

lemma first_run_init:
  assumes "fresh env w" and "room (length paths) w"
  shows "first_run env opts paths w
           \<lparr>tasks = replicate (length paths) Queued, first_true = None, pworld = w\<rparr>"
  using assms by (simp add: first_run_def task_ok_def)

lemma first_run_step:
  assumes uc: "useCache opts" and inv: "first_run env opts paths w0 s"
  shows "first_run env opts paths w0 (pLocate_step env opts (toPath env (cwd opts)) paths s st)"
proof -
  let ?w = "pworld s"
  have len: "length (tasks s) = length paths" and fr: "fresh env ?w"
    and an: "ans env opts ?w = ans env opts w0" and rm: "room (pending (tasks s)) ?w"
    and ok: "\<forall>i<length paths. task_ok env opts paths w0 ?w i (tasks s ! i)"
    using inv by (simp_all add: first_run_def)
  show ?thesis
  proof (cases rule: pLocate_step_cases [of env opts "toPath env (cwd opts)" paths s st])
    case idle
    then show ?thesis using inv by simp
  next
    case (returned i b w')
    have i: "i < length paths" "tasks s ! i = Queued"
      using first_queued_Some [OF returned(2)] len by auto
    let ?k = "key_of env opts (paths ! i)"
    obtain b0 where b0: "cached_answer ?w ?k = Some b0"
    proof (cases "cached_answer ?w ?k")
      case None
      then show ?thesis
        using tester_begin_unknown(1) [OF uc fr None] returned(3) by simp
    next
      case (Some x)
      then show ?thesis using that by simp
    qed
    note k = tester_begin_known [OF uc fr b0]
    have bb: "b = b0" and w': "w' = snd (tester_begin env opts (toPath env (cwd opts)) (paths ! i) ?w)"
      using k(1) returned(3) by simp_all
    have c: "cached_answer w' = cached_answer ?w" and f': "fresh env w'"
      using k(2,3) w' by simp_all
    have a': "ans env opts w' = ans env opts w0"
      using ans_cong [OF c] an by simp
    have "pending ((tasks s)[i := Settled b]) + unsettled (tasks s ! i)
            = pending (tasks s) + unsettled (Settled b)"
      using i len by (intro pending_update) simp
    then have "pending ((tasks s)[i := Settled b]) \<le> pending (tasks s)"
      by (simp add: unsettled_def)
    moreover have "room (pending (tasks s)) w'"
      using k(4) [OF rm] w' by simp
    ultimately have r': "room (pending ((tasks s)[i := Settled b])) w'"
      by (rule room_le)
    have "ans env opts ?w (paths ! i) = b0"
      using b0 by (simp add: ans_def)
    then have "b = ans env opts w0 (paths ! i)"
      using fun_cong [OF an, of "paths ! i"] bb by simp
    then have ti: "task_ok env opts paths w0 w' i (Settled b)"
      using c b0 by (simp add: task_ok_def)
    have old: "\<forall>j<length paths. task_ok env opts paths w0 w' j (tasks s ! j)"
      using ok task_ok_same [OF c] by blast
    have new: "i < length paths \<longrightarrow> task_ok env opts paths w0 w' i (Settled b)"
      using ti by simp
    have "\<forall>j<length paths. task_ok env opts paths w0 w' j ((tasks s)[i := Settled b] ! j)"
      by (rule tasks_update [where P = "task_ok env opts paths w0 w'", OF old new])
    then show ?thesis
      unfolding returned(4) settle_def using len f' a' r' by (intro first_runI(1)) simp_all
  next
    case (awaiting i rp key w')
    have i: "i < length paths" "tasks s ! i = Queued"
      using first_queued_Some [OF awaiting(2)] len by auto
    let ?k = "key_of env opts (paths ! i)"
    have none: "cached_answer ?w ?k = None"
    proof (cases "cached_answer ?w ?k")
      case None
      then show ?thesis .
    next
      case (Some x)
      then show ?thesis
        using tester_begin_known(1) [OF uc fr Some] awaiting(3) by simp
    qed
    note u = tester_begin_unknown [OF uc fr none]
    have rk: "rp = resolved env opts (paths ! i)" "key = ?k"
      and w': "w' = snd (tester_begin env opts (toPath env (cwd opts)) (paths ! i) ?w)"
      using u(1) awaiting(3) by simp_all
    have c: "cached_answer w' = cached_answer ?w" and f': "fresh env w'"
      using u(2,3) w' by simp_all
    have a': "ans env opts w' = ans env opts w0"
      using ans_cong [OF c] an by simp
    have "pending ((tasks s)[i := Running rp key]) + unsettled (tasks s ! i)
            = pending (tasks s) + unsettled (Running rp key)"
      using i len by (intro pending_update) simp
    then have "pending ((tasks s)[i := Running rp key]) = pending (tasks s)"
      using i by (simp add: unsettled_def)
    then have r': "room (pending ((tasks s)[i := Running rp key])) w'"
      using u(4) [OF rm] w' by simp
    have ti: "task_ok env opts paths w0 w' i (Running rp key)"
      using c none rk by (simp add: task_ok_def)
    have old: "\<forall>j<length paths. task_ok env opts paths w0 w' j (tasks s ! j)"
      using ok task_ok_same [OF c] by blast
    have new: "i < length paths \<longrightarrow> task_ok env opts paths w0 w' i (Running rp key)"
      using ti by simp
    have "\<forall>j<length paths. task_ok env opts paths w0 w' j ((tasks s)[i := Running rp key] ! j)"
      by (rule tasks_update [where P = "task_ok env opts paths w0 w'", OF old new])
    then show ?thesis
      unfolding awaiting(4) using len f' a' r' by (intro first_runI(2)) simp_all
  next
    case (finished i rp key b w')
    have i: "i < length paths" using finished(2) len by simp
    have tk: "rp = resolved env opts (paths ! i)" "key = key_of env opts (paths ! i)"
      "cached_answer ?w key = None \<or> cached_answer ?w key = Some (fs_matches env opts rp)"
      using ok [rule_format, OF i] finished(3) by (auto simp: task_ok_def)
    have b: "b = fs_matches env opts rp"
      and w': "w' = snd (tester_resume env opts rp key ?w)"
      using tester_resume_answer [of env opts rp key ?w] finished(4) by simp_all
    have "pending ((tasks s)[i := Settled b]) + unsettled (tasks s ! i)
            = pending (tasks s) + unsettled (Settled b)"
      using finished(2) by (intro pending_update) simp
    then have "Suc (pending ((tasks s)[i := Settled b])) = pending (tasks s)"
      using finished(3) by (simp add: unsettled_def)
    then have rs: "room (Suc (pending ((tasks s)[i := Settled b]))) ?w"
      using rm by simp
    note t = tester_resume_step [OF uc fr rs tk(3), folded w']
    have ai: "ans env opts ?w (paths ! i) = fs_matches env opts rp"
      using tk by (auto simp: ans_def)
    have c: "cached_answer w'
        = (cached_answer ?w)(key_of env opts (paths ! i) \<mapsto> ans env opts ?w (paths ! i))"
      using t(1) tk(2) ai by simp
    have a': "ans env opts w' = ans env opts w0"
      using ans_after_step [OF c] an by simp
    have c2: "cached_answer w'
        = (cached_answer ?w)(key_of env opts (paths ! i)
             \<mapsto> fs_matches env opts (resolved env opts (paths ! i)))"
      using t(1) tk(1,2) by simp
    have "b = ans env opts w0 (paths ! i)"
      using b ai fun_cong [OF an, of "paths ! i"] by simp
    then have ti: "task_ok env opts paths w0 w' i (Settled b)"
      using c by (simp add: task_ok_def)
    have old: "\<forall>j<length paths. task_ok env opts paths w0 w' j (tasks s ! j)"
      using ok task_ok_update [OF c2] by blast
    have new: "i < length paths \<longrightarrow> task_ok env opts paths w0 w' i (Settled b)"
      using ti by simp
    have "\<forall>j<length paths. task_ok env opts paths w0 w' j ((tasks s)[i := Settled b] ! j)"
      by (rule tasks_update [where P = "task_ok env opts paths w0 w'", OF old new])
    then show ?thesis
      unfolding finished(5) settle_def using len t(2,3) a' by (intro first_runI(1)) simp_all
  qed
qed


lemma first_run_run:
  assumes "useCache opts" and "fresh env w" and "room (length paths) w"
  shows "first_run env opts paths w (pLocate_run env opts (toPath env (cwd opts)) paths sched w)"
proof (rule pLocate_run_invariant)
  show "first_run env opts paths w
          \<lparr>tasks = replicate (length paths) Queued, first_true = None, pworld = w\<rparr>"
    using assms(2,3) by (rule first_run_init)
next
  fix s st
  assume "first_run env opts paths w s"
  then show "first_run env opts paths w (pLocate_step env opts (toPath env (cwd opts)) paths s st)"
    using assms(1) by (intro first_run_step)
qed

lemma all_settled_nth:
  "all_settled ts \<Longrightarrow> i < length ts \<Longrightarrow> \<exists>b. ts ! i = Settled b"
  by (cases "ts ! i") (auto simp: all_settled_def list_all_length unsettled_def)

text \<open>What a first call leaves behind once all its checks have settled.\<close>

lemma first_run_settled:
  assumes fr: "first_run env opts paths w s" and al: "all_settled (tasks s)"
  shows "fresh env (pworld s)" and "ans env opts (pworld s) = ans env opts w"
    and "\<forall>i<length paths. cached_answer (pworld s) (key_of env opts (paths ! i)) \<noteq> None"
    and "in_order paths (tasks s) = Fulfilled (find (ans env opts w) paths)"
proof -
  have len: "length (tasks s) = length paths"
    and ok: "\<forall>i<length paths. task_ok env opts paths w (pworld s) i (tasks s ! i)"
    using fr by (simp_all add: first_run_def)
  show "fresh env (pworld s)" "ans env opts (pworld s) = ans env opts w"
    using fr by (simp_all add: first_run_def)
  have st: "\<exists>b. tasks s ! i = Settled b" if "i < length paths" for i
    using all_settled_nth [OF al, of i] that len by simp
  show "\<forall>i<length paths. cached_answer (pworld s) (key_of env opts (paths ! i)) \<noteq> None"
  proof (intro allI impI)
    fix i assume i: "i < length paths"
    obtain b where "tasks s ! i = Settled b" using st [OF i] by blast
    then show "cached_answer (pworld s) (key_of env opts (paths ! i)) \<noteq> None"
      using ok [rule_format, OF i] by (simp add: task_ok_def)
  qed
  have an: "\<forall>i<length paths. \<forall>b. tasks s ! i = Settled b \<longrightarrow> b = ans env opts w (paths ! i)"
  proof (intro allI impI)
    fix i b assume i: "i < length paths" and b: "tasks s ! i = Settled b"
    show "b = ans env opts w (paths ! i)"
      using ok [rule_format, OF i] b by (simp add: task_ok_def)
  qed
  obtain r where r: "in_order paths (tasks s) = Fulfilled r"
    using in_order_settled [OF len] st by blast
  have "r = find (ans env opts w) paths"
    using len an r by (rule in_order_find)
  then show "in_order paths (tasks s) = Fulfilled (find (ans env opts w) paths)"
    using r by simp
qed

lemma second_runI:
  assumes "length ts = length paths" and "fresh env w" and "cached_answer w = cached_answer w1"
    and "probes_of (trace w) = probes_of (trace w1)"
    and "\<forall>i<length paths. case ts ! i of Queued \<Rightarrow> True | Running rp k \<Rightarrow> False
                                  | Settled b \<Rightarrow> b = ans env opts w1 (paths ! i)"
  shows "second_run env opts paths w1 (s\<lparr>tasks := ts, first_true := ft, pworld := w\<rparr>)"
  using assms by (simp add: second_run_def)

lemma second_run_step:
  assumes uc: "useCache opts" and inv: "second_run env opts paths w1 s"
    and known: "\<forall>i<length paths. cached_answer w1 (key_of env opts (paths ! i)) \<noteq> None"
  shows "second_run env opts paths w1 (pLocate_step env opts (toPath env (cwd opts)) paths s st)"
proof -
  let ?w = "pworld s"
  let ?P = "\<lambda>j t. case t of Queued \<Rightarrow> True | Running rp k \<Rightarrow> False
                         | Settled b \<Rightarrow> b = ans env opts w1 (paths ! j)"
  have len: "length (tasks s) = length paths" and fr: "fresh env ?w"
    and ca: "cached_answer ?w = cached_answer w1"
    and pr: "probes_of (trace ?w) = probes_of (trace w1)"
    and ok: "\<forall>i<length paths. ?P i (tasks s ! i)"
    using inv by (simp_all add: second_run_def)
  show ?thesis
  proof (cases rule: pLocate_step_cases [of env opts "toPath env (cwd opts)" paths s st])
    case idle
    then show ?thesis using inv by simp
  next
    case (returned i b w')
    have i: "i < length paths" "tasks s ! i = Queued"
      using first_queued_Some [OF returned(2)] len by auto
    obtain b0 where b0: "cached_answer ?w (key_of env opts (paths ! i)) = Some b0"
      using known [rule_format, OF i(1)] ca by auto
    note k = tester_begin_known [OF uc fr b0]
    have bb: "b = b0" and w': "w' = snd (tester_begin env opts (toPath env (cwd opts)) (paths ! i) ?w)"
      using k(1) returned(3) by simp_all
    have c: "cached_answer w' = cached_answer w1" and f': "fresh env w'"
      and p': "probes_of (trace w') = probes_of (trace w1)"
      using k(2,3,5) w' ca pr by simp_all
    have "cached_answer w1 (key_of env opts (paths ! i)) = Some b"
      using b0 bb ca by simp
    then have new: "i < length paths \<longrightarrow> ?P i (Settled b)"
      by (simp add: ans_def)
    have "\<forall>j<length paths. ?P j ((tasks s)[i := Settled b] ! j)"
      by (rule tasks_update [where P = ?P, OF ok new])
    then show ?thesis
      unfolding returned(4) settle_def using len f' c p' by (intro second_runI) simp_all
  next
    case (awaiting i rp key w')
    have i: "i < length paths"
      using first_queued_Some [OF awaiting(2)] len by auto
    obtain b0 where b0: "cached_answer ?w (key_of env opts (paths ! i)) = Some b0"
      using known [rule_format, OF i] ca by auto
    have False
      using tester_begin_known(1) [OF uc fr b0] awaiting(3) by simp
    then show ?thesis ..
  next
    case (finished i rp key b w')
    have "i < length paths" using finished(2) len by simp
    then have False
      using ok finished(3) by auto
    then show ?thesis ..
  qed
qed

lemma second_run_run:
  assumes "useCache opts" and "fresh env w1"
    and "\<forall>i<length paths. cached_answer w1 (key_of env opts (paths ! i)) \<noteq> None"
  shows "second_run env opts paths w1 (pLocate_run env opts (toPath env (cwd opts)) paths sched w1)"
proof (rule pLocate_run_invariant)
  show "second_run env opts paths w1
          \<lparr>tasks = replicate (length paths) Queued, first_true = None, pworld = w1\<rparr>"
    using assms(2) by (simp add: second_run_def)
next
  fix s st
  assume "second_run env opts paths w1 s"
  then show "second_run env opts paths w1 (pLocate_step env opts (toPath env (cwd opts)) paths s st)"
    using assms(1,3) by (intro second_run_step)
qed

lemma second_run_result:
  assumes sr: "second_run env opts paths w1 s" and "in_order paths (tasks s) = Fulfilled r"
  shows "r = find (ans env opts w1) paths"
proof -
  have len: "length (tasks s) = length paths"
    using sr by (simp add: second_run_def)
  have "\<forall>i<length paths. \<forall>b. tasks s ! i = Settled b \<longrightarrow> b = ans env opts w1 (paths ! i)"
  proof (intro allI impI)
    fix i b assume i: "i < length paths" and b: "tasks s ! i = Settled b"
    have "case tasks s ! i of Queued \<Rightarrow> True | Running rp k \<Rightarrow> False
            | Settled b \<Rightarrow> b = ans env opts w1 (paths ! i)"
      using sr i by (simp add: second_run_def)
    then show "b = ans env opts w1 (paths ! i)"
      using b by simp
  qed
  then show ?thesis
    using len assms(2) by (intro in_order_find [of "tasks s"]) simp_all
qed

section \<open>The same call twice\<close>

lemma repeated_sync:
  assumes "useCache opts" and "fresh env w" and "room (length paths) w"
  shows "fst (locatePathSync env paths opts (snd (locatePathSync env paths opts w)))
           = fst (locatePathSync env paths opts w) \<and>
         probes_of (trace (snd (locatePathSync env paths opts (snd (locatePathSync env paths opts w)))))
           = probes_of (trace (snd (locatePathSync env paths opts w)))"
proof (cases "valid_type (type opts)")
  case False
  then show ?thesis by (simp add: locatePathSync_def checkType_invalid)
next
  case True
  let ?D = "toPath env (cwd opts)"
  define w1 where "w1 = snd (locatePathSync_loop env opts ?D paths w)"
  note f = loop_first [OF assms, folded w1_def]
  have a: "ans env opts w1 = ans env opts w" using f by simp
  have k: "\<forall>p\<in>set (examined (ans env opts w1) paths). cached_answer w1 (key_of env opts p) \<noteq> None"
    unfolding a using f by simp
  have fr: "fresh env w1" using f by simp
  note s = loop_second [OF assms(1) fr k, unfolded a]
  have r1: "fst (locatePathSync_loop env opts ?D paths w) = find (ans env opts w) paths"
    using f by simp
  show ?thesis
    using s r1 by (simp add: locatePathSync_valid [OF True] w1_def)
qed

lemma repeated_async:
  assumes uc: "useCache opts" and fr: "fresh env w" and rm: "room (length paths) w"
    and al: "all_settled (tasks (pLocate_run env opts (toPath env (cwd opts)) paths sched1 w))"
  shows "probes_of (trace (snd (locatePath env paths opts sched2
                                   (snd (locatePath env paths opts sched1 w)))))
           = probes_of (trace (snd (locatePath env paths opts sched1 w))) \<and>
         (preserveOrder opts \<longrightarrow>
            (\<forall>r. fst (locatePath env paths opts sched2 (snd (locatePath env paths opts sched1 w)))
                   = Fulfilled r \<longrightarrow>
                 fst (locatePath env paths opts sched1 w) = Fulfilled r) \<and>
            (concurrency opts \<noteq> Some 0 \<longrightarrow>
               fst (locatePath env paths opts (sequential (length paths))
                      (snd (locatePath env paths opts sched1 w)))
                 = fst (locatePath env paths opts sched1 w)))"
proof (cases "valid_type (type opts)")
  case False
  then show ?thesis by (simp add: locatePath_def checkType_invalid)
next
  case True
  let ?D = "toPath env (cwd opts)"
  define s1 where "s1 = pLocate_run env opts ?D paths sched1 w"
  define w1 where "w1 = pworld s1"
  have f1: "first_run env opts paths w s1"
    unfolding s1_def using uc fr rm by (rule first_run_run)
  note st = first_run_settled [OF f1 al [folded s1_def], folded w1_def]
  have l1: "locatePath env paths opts sched1 w = (pLocate_promise opts paths s1, w1)"
    by (simp add: locatePath_valid [OF True] s1_def w1_def)
  have run2: "second_run env opts paths w1 (pLocate_run env opts ?D paths sched w1)" for sched
    using uc st(1,3) by (rule second_run_run)
  have l2: "locatePath env paths opts sched w1
              = (pLocate_promise opts paths (pLocate_run env opts ?D paths sched w1),
                 pworld (pLocate_run env opts ?D paths sched w1))" for sched
    by (simp add: locatePath_valid [OF True])
  have p: "probes_of (trace (pworld (pLocate_run env opts ?D paths sched2 w1)))
             = probes_of (trace w1)"
    using run2 [of sched2] by (simp add: second_run_def)
  have res: "pLocate_promise opts paths s1 = Fulfilled r"
    if po: "preserveOrder opts"
      and ful: "pLocate_promise opts paths (pLocate_run env opts ?D paths sched w1) = Fulfilled r"
    for sched r
  proof -
    have "in_order paths (tasks (pLocate_run env opts ?D paths sched w1)) = Fulfilled r"
      using ful po by (simp add: pLocate_promise_def)
    then have "r = find (ans env opts w1) paths"
      using run2 [of sched] by (intro second_run_result)
    then show ?thesis
      using st(2,4) po by (simp add: pLocate_promise_def)
  qed
  have sq: "pLocate_promise opts paths (pLocate_run env opts ?D paths (sequential (length paths)) w1)
              = pLocate_promise opts paths s1"
    if po: "preserveOrder opts" and bound: "concurrency opts \<noteq> Some 0"
  proof -
    obtain r where r: "pLocate_promise opts paths
        (pLocate_run env opts ?D paths (sequential (length paths)) w1) = Fulfilled r"
      using sequential_fulfils [OF bound po, of paths env ?D w1] by blast
    then show ?thesis using res [OF po r] by simp
  qed
  show ?thesis
    unfolding l1 snd_conv fst_conv l2 using p res sq by blast
qed

text \<open>
  C8, as the code has it. Let \<^verbatim>\<open>useCache\<close> be true, let both caches have room for one more
  entry per candidate (so that nothing is evicted), and let the readings of the clock and
  the timestamps of the entries already cached lie within one TTL of each other (so that
  nothing expires); the filesystem is the same throughout. Then \<^verbatim>\<open>locatePathSync\<close> called
  twice in a row returns the same result twice and the second call issues no probe. For
  \<^verbatim>\<open>locatePath\<close>, when the second call starts after all checks of the first have settled,
  the second call issues no probe under any schedule, and with \<^verbatim>\<open>preserveOrder\<close> its
  promise, once fulfilled, has the value of the first; the one-after-the-other schedule
  fulfils it.
\<close>

theorem repeated_call_answered_from_cache:
  assumes "useCache opts" and "fresh env w" and "room (length paths) w"
  shows "fst (locatePathSync env paths opts (snd (locatePathSync env paths opts w)))
           = fst (locatePathSync env paths opts w) \<and>
         probes_of (trace (snd (locatePathSync env paths opts (snd (locatePathSync env paths opts w)))))
           = probes_of (trace (snd (locatePathSync env paths opts w))) \<and>
         (all_settled (tasks (pLocate_run env opts (toPath env (cwd opts)) paths sched1 w)) \<longrightarrow>
            probes_of (trace (snd (locatePath env paths opts sched2
                                     (snd (locatePath env paths opts sched1 w)))))
              = probes_of (trace (snd (locatePath env paths opts sched1 w))) \<and>
            (preserveOrder opts \<longrightarrow>
               (\<forall>r. fst (locatePath env paths opts sched2 (snd (locatePath env paths opts sched1 w)))
                      = Fulfilled r \<longrightarrow>
                    fst (locatePath env paths opts sched1 w) = Fulfilled r) \<and>
               (concurrency opts \<noteq> Some 0 \<longrightarrow>
                  fst (locatePath env paths opts (sequential (length paths))
                         (snd (locatePath env paths opts sched1 w)))
                    = fst (locatePath env paths opts sched1 w))))"
  using repeated_sync [OF assms] repeated_async [OF assms] by blast


lemma fresh_env2: "fresh env2 initial_world"
  by (auto simp: fresh_def fresh_cache_def initial_world_def LRUCache_new_def env2_def env1_def)

theorem repeated_call_answered_from_cache_witness:
  "useCache opts1 \<and> fresh env2 initial_world \<and> room (length [''a'', ''b'', ''dir'']) initial_world \<and>
   all_settled (tasks (pLocate_run env2 opts1 (toPath env2 (cwd opts1)) [''a'', ''b'', ''dir'']
                         [Start, Start, Start, Finish 1, Finish 0, Finish 2] initial_world)) \<and>
   preserveOrder opts1 \<and>
   fst (locatePathSync env2 [''a'', ''b'', ''dir''] opts1 initial_world) = Inr (Some ''b'') \<and>
   fst (locatePathSync env2 [''a'', ''b'', ''dir''] opts1
          (snd (locatePathSync env2 [''a'', ''b'', ''dir''] opts1 initial_world))) = Inr (Some ''b'') \<and>
   probes_of (trace (snd (locatePathSync env2 [''a'', ''b'', ''dir''] opts1
          (snd (locatePathSync env2 [''a'', ''b'', ''dir''] opts1 initial_world)))))
     = [''/d/a'', ''/d/b''] \<and>
   fst (locatePath env2 [''a'', ''b'', ''dir''] opts1 [Start, Start]
          (snd (locatePath env2 [''a'', ''b'', ''dir''] opts1
                  [Start, Start, Start, Finish 1, Finish 0, Finish 2] initial_world)))
     = Fulfilled (Some ''b'') \<and>
   probes_of (trace (snd (locatePath env2 [''a'', ''b'', ''dir''] opts1 [Start, Start]
          (snd (locatePath env2 [''a'', ''b'', ''dir''] opts1
                  [Start, Start, Start, Finish 1, Finish 0, Finish 2] initial_world)))))
     = [''/d/a'', ''/d/b'', ''/d/dir'']"
proof -
  let ?P = "[''a'', ''b'', ''dir'']"
  let ?S = "[Start, Start, Start, Finish 1, Finish 0, Finish 2]"
  have h1: "useCache opts1" and po: "preserveOrder opts1"
    by (simp_all add: opts1_def default_options_def)
  have h3: "room (length ?P) initial_world"
    by (simp add: room_def initial_world_def LRUCache_new_def)
  have h4: "all_settled (tasks (pLocate_run env2 opts1 (toPath env2 (cwd opts1)) ?P ?S initial_world))"
    by code_simp
  have s1: "fst (locatePathSync env2 ?P opts1 initial_world) = Inr (Some ''b'')"
    by code_simp
  have p1: "probes_of (trace (snd (locatePathSync env2 ?P opts1 initial_world))) = [''/d/a'', ''/d/b'']"
    by code_simp
  have a1: "fst (locatePath env2 ?P opts1 ?S initial_world) = Fulfilled (Some ''b'')"
    by code_simp
  have a2: "fst (locatePath env2 ?P opts1 [Start, Start] (snd (locatePath env2 ?P opts1 ?S initial_world)))
              = Fulfilled (Some ''b'')"
    by code_simp
  have q1: "probes_of (trace (snd (locatePath env2 ?P opts1 ?S initial_world)))
              = [''/d/a'', ''/d/b'', ''/d/dir'']"
    by code_simp
  note t = repeated_call_answered_from_cache [OF h1 fresh_env2 h3, where ?sched1.0 = ?S
      and ?sched2.0 = "[Start, Start]"]
  have c1: "fst (locatePathSync env2 ?P opts1 (snd (locatePathSync env2 ?P opts1 initial_world)))
              = Inr (Some ''b'')"
    using t s1 by simp
  have c2: "probes_of (trace (snd (locatePathSync env2 ?P opts1
              (snd (locatePathSync env2 ?P opts1 initial_world))))) = [''/d/a'', ''/d/b'']"
    using t p1 by simp
  have c3: "probes_of (trace (snd (locatePath env2 ?P opts1 [Start, Start]
              (snd (locatePath env2 ?P opts1 ?S initial_world))))) = [''/d/a'', ''/d/b'', ''/d/dir'']"
    using t h4 q1 by simp
  from h1 fresh_env2 h3 h4 po s1 c1 c2 a2 c3 show ?thesis by blast
qed


subsection \<open>More candidates than the cache holds\<close>

lemma body_miss:
  assumes "useCache opts"
    and "map_of (cache (negativeCache w)) (key_of env opts p) = None"
    and "map_of (cache (statCache w)) (key_of env opts p) = None"
    and "\<not> fs_matches env opts (resolved env opts p)"
  shows "locatePathSync_body env opts (toPath env (cwd opts)) p w
           = (False,
              cache_set env Negative (key_of env opts p) False
                (probe (resolved env opts p)
                   (w\<lparr>trace := trace w @ [CacheGet Negative (key_of env opts p),
                                           CacheGet Positive (key_of env opts p)]\<rparr>)))"
proof -
  let ?k = "key_of env opts p"
  have g1: "cache_get env Negative ?k w = (None, w\<lparr>trace := trace w @ [CacheGet Negative ?k]\<rparr>)"
    using assms(2) by (intro cache_get_absent) (simp add: the_cache_def)
  have g2: "cache_get env Positive ?k (w\<lparr>trace := trace w @ [CacheGet Negative ?k]\<rparr>)
        = (None, w\<lparr>trace := trace w @ [CacheGet Negative ?k, CacheGet Positive ?k]\<rparr>)"
    using assms(3) cache_get_absent [of Positive "w\<lparr>trace := trace w @ [CacheGet Negative ?k]\<rparr>" ?k env]
    by (simp add: the_cache_def)
  let ?w2 = "w\<lparr>trace := trace w @ [CacheGet Negative ?k, CacheGet Positive ?k]\<rparr>"
  have c: "checkPathSync env (resolved env opts p) ?k (type opts) (allowSymlinks opts) True ?w2
      = (False, cache_set env Negative ?k False (probe (resolved env opts p) ?w2))"
    using assms(4) checkPathSync_answer [of env "resolved env opts p" ?k opts True ?w2]
      checkPathSync_world [of env "resolved env opts p" ?k opts True ?w2]
    by (simp add: prod_eq_iff)
  show ?thesis
    using assms(1) g1 g2 c by (simp add: body_resolved)
qed

lemma set_new_key:
  assumes "distinct (keys_of c)" and "key \<notin> set (keys_of c)" and "0 < maxSize c"
  shows "keys_of (LRUCache_set now key v c)
           = (if maxSize c \<le> length (cache c) then tl (keys_of c) else keys_of c) @ [key]"
proof -
  have none: "map_of (cache c) key = None"
    using assms(2) by (simp add: keys_of_def map_of_eq_None_iff)
  show ?thesis
  proof (cases "maxSize c \<le> length (cache c)")
    case False
    then show ?thesis
      using none by (simp add: LRUCache_set_def Map_defs keys_of_def update_absent)
  next
    case True
    then obtain k e m where m: "cache c = (k, e) # m"
      using assms(3) by (cases "cache c") auto
    have del: "AList.delete k ((k, e) # m) = m"
      using assms(1) unfolding keys_of_def m by (rule delete_head_distinct)
    have "map_of m key = None"
      using none by (auto simp: m split: if_splits)
    then have "AList.update key x m = m @ [(key, x)]" for x
      by (rule update_absent)
    then have "cache (LRUCache_set now key v c) = m @ [(key, \<lparr>entry_value = v, timestamp = now\<rparr>)]"
      using none True del by (simp add: LRUCache_set_def Map_defs m)
    then show ?thesis
      using True by (simp add: keys_of_def m)
  qed
qed

text \<open>
  A scan over candidates that do not exist and whose keys are new to the caches appends one
  negative entry per candidate and keeps the last \<open>maxSize\<close> keys.
\<close>

lemma loop_thrash:
  assumes uc: "useCache opts"
  shows "\<forall>p\<in>set ps. \<not> fs_matches env opts (resolved env opts p) \<Longrightarrow>
     distinct (keys_of (negativeCache w) @ map (key_of env opts) ps) \<Longrightarrow>
     cache (statCache w) = [] \<Longrightarrow> 0 < maxSize (negativeCache w) \<Longrightarrow>
     length (keys_of (negativeCache w)) \<le> maxSize (negativeCache w) \<Longrightarrow>
     fst (locatePathSync_loop env opts (toPath env (cwd opts)) ps w) = None \<and>
     cache (statCache (snd (locatePathSync_loop env opts (toPath env (cwd opts)) ps w))) = [] \<and>
     keys_of (negativeCache (snd (locatePathSync_loop env opts (toPath env (cwd opts)) ps w)))
       = drop (length (keys_of (negativeCache w)) + length ps - maxSize (negativeCache w))
           (keys_of (negativeCache w) @ map (key_of env opts) ps)"
proof (induction ps arbitrary: w)
  case Nil
  then show ?case by simp
next
  case (Cons p ps)
  let ?D = "toPath env (cwd opts)"
  let ?k = "key_of env opts p"
  let ?ks = "keys_of (negativeCache w)"
  let ?M = "maxSize (negativeCache w)"
  define w1 where "w1 = cache_set env Negative ?k False
      (probe (resolved env opts p)
         (w\<lparr>trace := trace w @ [CacheGet Negative ?k, CacheGet Positive ?k]\<rparr>))"
  have knew: "?k \<notin> set ?ks" and dks: "distinct ?ks"
    using Cons.prems(2) by auto
  have n1: "map_of (cache (negativeCache w)) ?k = None"
    using knew by (simp add: keys_of_def map_of_eq_None_iff)
  have n2: "map_of (cache (statCache w)) ?k = None"
    using Cons.prems(3) by simp
  have body: "locatePathSync_body env opts ?D p w = (False, w1)"
    unfolding w1_def using uc n1 n2 Cons.prems(1) by (intro body_miss) simp_all
  have eq: "locatePathSync_loop env opts ?D (p # ps) w = locatePathSync_loop env opts ?D ps w1"
    using body by simp
  have neg1: "negativeCache w1
      = LRUCache_set (Date_now env (clock w)) ?k False (negativeCache w)"
    and pos1: "statCache w1 = statCache w"
    by (simp_all add: w1_def probe_def)
  have ks1: "keys_of (negativeCache w1)
      = (if ?M \<le> length ?ks then tl ?ks else ?ks) @ [?k]"
    unfolding neg1 using set_new_key [OF dks knew Cons.prems(4)] by (simp add: keys_of_def)
  have M1: "maxSize (negativeCache w1) = ?M"
    unfolding neg1 by simp
  have d1: "distinct (keys_of (negativeCache w1) @ map (key_of env opts) ps)"
    using Cons.prems(2) unfolding ks1
    by (cases ?ks) (auto split: if_splits)
  have l1: "length (keys_of (negativeCache w1)) \<le> ?M"
    unfolding ks1 using Cons.prems(4,5) by (cases ?ks) auto
  note IH = Cons.IH [of w1, OF _ d1, unfolded pos1 M1]
  have ih: "fst (locatePathSync_loop env opts ?D ps w1) = None"
    "cache (statCache (snd (locatePathSync_loop env opts ?D ps w1))) = []"
    "keys_of (negativeCache (snd (locatePathSync_loop env opts ?D ps w1)))
       = drop (length (keys_of (negativeCache w1)) + length ps - ?M)
           (keys_of (negativeCache w1) @ map (key_of env opts) ps)"
    using IH Cons.prems(1,3,4) l1 by simp_all
  have "drop (length (keys_of (negativeCache w1)) + length ps - ?M)
           (keys_of (negativeCache w1) @ map (key_of env opts) ps)
      = drop (length ?ks + length (p # ps) - ?M) (?ks @ map (key_of env opts) (p # ps))"
  proof (cases "?M \<le> length ?ks")
    case False
    then show ?thesis unfolding ks1 by simp
  next
    case True
    then obtain x t where xt: "?ks = x # t"
      using Cons.prems(4) by (cases ?ks) auto
    have "length ?ks + length (p # ps) - ?M = Suc (length t + length ps + 1 - ?M)"
      using True xt by simp
    then show ?thesis
      unfolding ks1 using True xt by simp
  qed
  then show ?case
    unfolding eq using ih by simp
qed

lemma body_trace_grows:
  "\<exists>evs. trace (snd (locatePathSync_body env opts dir p w)) = trace w @ evs"
  by (auto simp: locatePathSync_body_def checkPathSync_world Let_def split_beta
      split: option.splits)

lemma loop_trace_grows:
  "\<exists>evs. trace (snd (locatePathSync_loop env opts dir ps w)) = trace w @ evs"
proof (induction ps arbitrary: w)
  case Nil
  then show ?case by simp
next
  case (Cons p ps)
  obtain b w1 where body: "locatePathSync_body env opts dir p w = (b, w1)"
    by (cases "locatePathSync_body env opts dir p w")
  obtain e1 where e1: "trace w1 = trace w @ e1"
    using body_trace_grows [of env opts dir p w] body by auto
  obtain e2 where e2: "trace (snd (locatePathSync_loop env opts dir ps w1)) = trace w1 @ e2"
    using Cons.IH [of w1] by blast
  show ?case
    using body e1 e2 by (cases b) auto
qed


lemma thrash_second_call:
  assumes uc: "useCache opts" and vt: "valid_type (type opts)"
    and nm: "\<forall>p\<in>set (p0 # ps). \<not> fs_matches env opts (resolved env opts p)"
    and ds: "distinct (map (key_of env opts) (p0 # ps))"
    and e1: "cache (negativeCache w) = []" and e2: "cache (statCache w) = []"
    and sz: "maxSize (negativeCache w) = length ps" and ne: "ps \<noteq> []"
  shows "fst (locatePathSync env (p0 # ps) opts w) = Inr None \<and>
         probes_of (trace (snd (locatePathSync env (p0 # ps) opts
                                  (snd (locatePathSync env (p0 # ps) opts w)))))
           \<noteq> probes_of (trace (snd (locatePathSync env (p0 # ps) opts w)))"
proof -
  let ?D = "toPath env (cwd opts)"
  let ?k = "key_of env opts p0"
  define w1 where "w1 = snd (locatePathSync_loop env opts ?D (p0 # ps) w)"
  have k0: "keys_of (negativeCache w) = []"
    using e1 by (simp add: keys_of_def)
  have pos: "0 < maxSize (negativeCache w)"
    using sz ne by simp
  have th: "fst (locatePathSync_loop env opts ?D (p0 # ps) w) = None \<and>
        cache (statCache w1) = [] \<and>
        keys_of (negativeCache w1)
          = drop (length (keys_of (negativeCache w)) + length (p0 # ps) - maxSize (negativeCache w))
              (keys_of (negativeCache w) @ map (key_of env opts) (p0 # ps))"
    unfolding w1_def using nm ds e2 pos k0 by (intro loop_thrash [OF uc]) simp_all
  have keys1: "keys_of (negativeCache w1) = map (key_of env opts) ps"
    using th by (simp add: k0 sz)
  have "?k \<notin> set (map (key_of env opts) ps)"
    using ds by simp
  then have "?k \<notin> set (map fst (cache (negativeCache w1)))"
    using keys1 unfolding keys_of_def by simp
  then have n1: "map_of (cache (negativeCache w1)) ?k = None"
    by (simp add: map_of_eq_None_iff)
  have n2: "map_of (cache (statCache w1)) ?k = None"
    using th by simp
  define w2 where "w2 = cache_set env Negative ?k False
      (probe (resolved env opts p0)
         (w1\<lparr>trace := trace w1 @ [CacheGet Negative ?k, CacheGet Positive ?k]\<rparr>))"
  have body: "locatePathSync_body env opts ?D p0 w1 = (False, w2)"
    unfolding w2_def using uc n1 n2 nm by (intro body_miss) simp_all
  have t2: "trace w2 = trace w1 @ [CacheGet Negative ?k, CacheGet Positive ?k,
                                   Probe (resolved env opts p0), CacheSet Negative ?k False]"
    by (simp add: w2_def probe_def)
  obtain evs where evs: "trace (snd (locatePathSync_loop env opts ?D ps w2)) = trace w2 @ evs"
    using loop_trace_grows by blast
  have "probes_of (trace (snd (locatePathSync_loop env opts ?D (p0 # ps) w1)))
          = probes_of (trace w1) @ resolved env opts p0 # probes_of evs"
    using body evs t2 by simp
  then have "probes_of (trace (snd (locatePathSync_loop env opts ?D (p0 # ps) w1)))
          \<noteq> probes_of (trace w1)"
    by simp
  then show ?thesis
    using th by (simp add: locatePathSync_valid [OF vt] w1_def)
qed

lemma cands501_Cons:
  "cands501 = ''x'' # map (\<lambda>n. replicate (Suc n) CHR ''x'') [1..<501]"
  unfolding cands501_def by (simp add: upt_conv_Cons)

lemma resolved_cand:
  "resolved env3 opts1 (replicate (Suc n) CHR ''x'') = ''/d/'' @ replicate (Suc n) CHR ''x''"
  by (simp add: resolved_def env3_def env1_def opts1_def default_options_def toPath_def)

lemma cand_missing:
  "\<not> fs_matches env3 opts1 (resolved env3 opts1 (replicate (Suc n) CHR ''x''))"
  unfolding resolved_cand
  by (simp add: fs_matches_def env3_def env1_def fs1_def opts1_def default_options_def)

lemma key_of_inj: "key_of env3 opts1 p = key_of env3 opts1 q \<Longrightarrow> resolved env3 opts1 p = resolved env3 opts1 q"
  by (rule key_of_resolved)

lemma cands501_keys_distinct: "distinct (map (key_of env3 opts1) cands501)"
proof -
  have "inj_on (\<lambda>n. key_of env3 opts1 (replicate (Suc n) CHR ''x'')) (set [0..<501])"
  proof (rule inj_onI)
    fix n m
    assume "key_of env3 opts1 (replicate (Suc n) CHR ''x'') = key_of env3 opts1 (replicate (Suc m) CHR ''x'')"
    then have "resolved env3 opts1 (replicate (Suc n) CHR ''x'')
                 = resolved env3 opts1 (replicate (Suc m) CHR ''x'')"
      by (rule key_of_resolved)
    then have "replicate (Suc n) CHR ''x'' = replicate (Suc m) CHR ''x''"
      unfolding resolved_cand by simp
    then have "length (replicate (Suc n) CHR ''x'') = length (replicate (Suc m) CHR ''x'')"
      by (rule arg_cong)
    then show "n = m" by simp
  qed
  then have "distinct (map (\<lambda>n. key_of env3 opts1 (replicate (Suc n) CHR ''x'')) [0..<501])"
    by (simp add: distinct_map)
  then show ?thesis
    by (simp add: cands501_def comp_def)
qed

lemma fresh_env3: "fresh env3 initial_world"
  by (auto simp: fresh_def fresh_cache_def initial_world_def LRUCache_new_def env3_def)

text \<open>
  The statement of C8 fails for a list longer than the cache. Starting from empty caches
  with a clock that stands still, the first call on 501 missing candidates leaves the last
  500 keys in the negative cache; the second call finds nothing cached for the first
  candidate and probes again.
\<close>

theorem repeated_call_answered_from_cache_counterexample:
  "useCache opts1 \<and> fresh env3 initial_world \<and> length cands501 = 501 \<and>
   fst (locatePathSync env3 cands501 opts1 initial_world) = Inr None \<and>
   probes_of (trace (snd (locatePathSync env3 cands501 opts1
                            (snd (locatePathSync env3 cands501 opts1 initial_world)))))
     \<noteq> probes_of (trace (snd (locatePathSync env3 cands501 opts1 initial_world)))"
proof -
  let ?rest = "map (\<lambda>n. replicate (Suc n) CHR ''x'') [1..<501]"
  have uc: "useCache opts1" and vt: "valid_type (type opts1)"
    by (simp_all add: opts1_def default_options_def valid_type_def)
  have nm: "\<forall>p\<in>set (''x'' # ?rest). \<not> fs_matches env3 opts1 (resolved env3 opts1 p)"
    using cand_missing [of 0] cand_missing by auto
  have ds: "distinct (map (key_of env3 opts1) (''x'' # ?rest))"
    using cands501_keys_distinct unfolding cands501_Cons .
  have e: "cache (negativeCache initial_world) = []" "cache (statCache initial_world) = []"
    "maxSize (negativeCache initial_world) = length ?rest" "?rest \<noteq> []"
    by (simp_all add: initial_world_def LRUCache_new_def)
  have len: "length cands501 = 501"
    by (simp add: cands501_def)
  show ?thesis
    using thrash_second_call [OF uc vt nm ds e] uc fresh_env3 len
    unfolding cands501_Cons by simp
qed

section \<open>The synchronous scan against the spec\<close>

lemma negative_get_no:
  assumes "values_ok w"
  shows "fst (cache_get env Negative key w) \<noteq> Some True"
proof -
  have "\<not> entry_value e" if "Map_get (cache (negativeCache w)) key = Some e" for e
    using assms map_of_SomeD [of "cache (negativeCache w)" key e] that
    by (auto simp: values_ok_def list_all_iff Map_defs)
  then show ?thesis
    by (auto simp: LRUCache_get_def split: option.splits)
qed

lemma positive_get_yes:
  assumes "values_ok w"
  shows "fst (cache_get env Positive key w) \<noteq> Some False"
proof -
  have "entry_value e" if "Map_get (cache (statCache w)) key = Some e" for e
    using assms map_of_SomeD [of "cache (statCache w)" key e] that
    by (auto simp: values_ok_def list_all_iff Map_defs)
  then show ?thesis
    by (auto simp: LRUCache_get_def split: option.splits)
qed

lemma fs_matches_spec: "fs_matches env opts rp = spec_probe env opts rp"
proof -
  have "(case matchType t st of Inr b \<Rightarrow> b | Inl e \<Rightarrow> False) = spec_type_matches t st" for t st
    by (simp add: matchType_def typeMappings_def spec_type_matches_def)
  then show ?thesis
    by (simp add: fs_matches_def spec_probe_def split: stat_outcome.splits)
qed

lemma checkPathSync_spec:
  "checkPathSync env rp k (type opts) (allowSymlinks opts) uc w
     = (spec_probe env opts rp,
        if uc then cache_set env (if spec_probe env opts rp then Positive else Negative) k
                     (spec_probe env opts rp) (probe rp w)
        else probe rp w)"
  using checkPathSync_answer [of env rp k opts uc w] checkPathSync_world [of env rp k opts uc w]
  by (simp add: prod_eq_iff fs_matches_spec)

lemma body_refines_spec:
  "locatePathSync_body env opts (toPath env (cwd opts)) p w = spec_check env opts w p"
proof -
  define rp where "rp = (if isAbsolute env p then p else resolve env (toPath env (cwd opts)) p)"
  define k where
    "k = rp @ '':'' @ type opts @ '':'' @ (if allowSymlinks opts then ''true'' else ''false'')"
  define m where "m = spec_probe env opts rp"
  have key: "cacheKey rp (type opts) (allowSymlinks opts) = k"
    by (simp add: cacheKey_def String_of_bool_def k_def)
  obtain n w1 where n: "cache_get env Negative k w = (n, w1)"
    by (cases "cache_get env Negative k w")
  obtain c w2 where c: "cache_get env Positive k w1 = (c, w2)"
    by (cases "cache_get env Positive k w1")
  have chk: "checkPathSync env rp k (type opts) (allowSymlinks opts) uc v
      = (m, if uc then cache_set env (if m then Positive else Negative) k m (probe rp v)
            else probe rp v)" for uc v
    unfolding m_def by (rule checkPathSync_spec)
  have code: "locatePathSync_body env opts (toPath env (cwd opts)) p w
      = (if useCache opts
         then if n = Some False then (False, w1)
              else case c of Some b \<Rightarrow> (b, w2)
                   | None \<Rightarrow> (m, cache_set env (if m then Positive else Negative) k m (probe rp w2))
         else (m, probe rp w))"
    unfolding locatePathSync_body_def Let_def rp_def [symmetric] key chk
    using n c by (cases c) simp_all
  have spec: "spec_check env opts w p
      = (if useCache opts
         then if n = Some False then (False, w1)
              else case c of Some b \<Rightarrow> (b, w2)
                   | None \<Rightarrow> (m, cache_set env (if m then Positive else Negative) k m (probe rp w2))
         else (m, probe rp w))"
    unfolding spec_check_def Let_def rp_def [symmetric] k_def [symmetric] m_def [symmetric]
    using n c by (cases n; cases c) (simp_all split: bool.splits)
  show ?thesis
    unfolding code spec by (rule refl)
qed

lemma spec_state_before_0: "spec_state_before env opts ps w 0 = w"
  by (simp add: spec_state_before_def)

lemma spec_state_before_Suc:
  "spec_state_before env opts (p # ps) w (Suc i)
     = spec_state_before env opts ps (snd (spec_check env opts w p)) i"
  by (simp add: spec_state_before_def)

lemma spec_matches_at_0: "spec_matches_at env opts (p # ps) w 0 = fst (spec_check env opts w p)"
  by (simp add: spec_matches_at_def spec_state_before_0)

lemma spec_matches_at_Suc:
  "spec_matches_at env opts (p # ps) w (Suc i)
     = spec_matches_at env opts ps (snd (spec_check env opts w p)) i"
  by (simp add: spec_matches_at_def spec_state_before_Suc)

lemma find_map_list: "find P (map f xs) = map_option f (find (P \<circ> f) xs)"
  by (induction xs) simp_all

lemma find_upt_Suc:
  "find P [0..<Suc n] = (if P 0 then Some 0 else map_option Suc (find (P \<circ> Suc) [0..<n]))"
proof -
  have "[0..<Suc n] = 0 # map Suc [0..<n]"
    by (simp only: upt_conv_Cons [of 0 "Suc n"] map_Suc_upt)
  then show ?thesis
    by (simp add: find_map_list del: upt_Suc)
qed

lemma loop_refines_spec:
  "locatePathSync_loop env opts (toPath env (cwd opts)) paths w
     = (case find (spec_matches_at env opts paths w) [0..<length paths] of
          None \<Rightarrow> (None, spec_state_before env opts paths w (length paths))
        | Some i \<Rightarrow> (Some (paths ! i), spec_state_before env opts paths w (Suc i)))"
proof (induction paths arbitrary: w)
  case Nil
  show ?case by (simp add: spec_state_before_0)
next
  case (Cons p ps)
  obtain m w' where chk: "spec_check env opts w p = (m, w')"
    by (cases "spec_check env opts w p")
  have shift: "spec_matches_at env opts (p # ps) w \<circ> Suc = spec_matches_at env opts ps w'"
    by (rule ext) (simp add: spec_matches_at_Suc chk)
  have at0: "spec_matches_at env opts (p # ps) w 0 = m"
    by (simp add: spec_matches_at_0 chk)
  have first: "spec_state_before env opts (p # ps) w (Suc 0) = w'"
    by (simp add: spec_state_before_Suc spec_state_before_0 chk)
  have later: "spec_state_before env opts (p # ps) w (Suc i) = spec_state_before env opts ps w' i"
    for i
    by (simp add: spec_state_before_Suc chk)
  have step: "locatePathSync_loop env opts (toPath env (cwd opts)) (p # ps) w
      = (if m then (Some p, w') else locatePathSync_loop env opts (toPath env (cwd opts)) ps w')"
    by (simp add: body_refines_spec chk)
  show ?case
  proof (cases m)
    case True
    then show ?thesis
      unfolding step length_Cons find_upt_Suc at0 by (simp add: first)
  next
    case False
    then show ?thesis
      unfolding step length_Cons find_upt_Suc at0 shift Cons.IH
      by (simp add: later split: option.splits)
  qed
qed

lemma locatePathSync_refines_spec:
  "locatePathSync env paths opts w = spec_locateSync env paths opts w"
proof (cases "valid_type (type opts)")
  case True
  then show ?thesis
    unfolding locatePathSync_valid [OF True] loop_refines_spec spec_locateSync_def
    by (simp split: option.splits)
next
  case False
  then show ?thesis
    by (simp add: locatePathSync_def checkType_invalid spec_locateSync_def)
qed

lemma find_upt_None: "find P [0..<n] = None \<longleftrightarrow> (\<forall>i<n. \<not> P i)"
  by (auto simp: find_None_iff)

lemma find_upt_Some: "find P [0..<n] = Some i \<longleftrightarrow> i < n \<and> P i \<and> (\<forall>j<i. \<not> P j)"
  by (auto simp: find_Some_iff)

text \<open>
  Steps 3 and 4 of section 4.4 speak of a key that is present in a cache. Where the
  positive cache holds only matches and the negative cache only non-matches, which is so
  at start-up and after every call of either locator, the answer of \<open>spec_check\<close> is that
  reading: no when the key is present in the negative cache, else yes when it is present
  in the positive cache, else the outcome of the probe.
\<close>

lemma spec_check_present:
  fixes opts :: options
  assumes ok: "values_ok w" and uc: "useCache opts"
    and rp: "rp = (if isAbsolute env p then p else resolve env (toPath env (cwd opts)) p)"
    and k: "k = rp @ '':'' @ type opts @ '':'' @
                  (if allowSymlinks opts then ''true'' else ''false'')"
  shows "fst (spec_check env opts w p)
     = (if fst (cache_get env Negative k w) \<noteq> None then False
        else if fst (cache_get env Positive k (snd (cache_get env Negative k w))) \<noteq> None
        then True
        else spec_probe env opts rp)"
proof -
  obtain n w1 where n: "cache_get env Negative k w = (n, w1)"
    by (cases "cache_get env Negative k w")
  obtain c w2 where c: "cache_get env Positive k w1 = (c, w2)"
    by (cases "cache_get env Positive k w1")
  have n_no: "n \<noteq> Some True"
    using negative_get_no [OF ok, of env k] n by simp
  have "values_ok w1"
    using values_ok_get [OF ok, of env Negative k] n by simp
  then have c_yes: "c \<noteq> Some False"
    using positive_get_yes [of w1 env k] c by simp
  have "fst (spec_check env opts w p)
      = (if n = Some False then False
         else case c of Some b \<Rightarrow> b | None \<Rightarrow> spec_probe env opts rp)"
    unfolding spec_check_def Let_def rp [symmetric] k [symmetric]
    using uc n c by (cases n; cases c) (simp_all split: bool.splits)
  also have "\<dots> = (if n \<noteq> None then False else if c \<noteq> None then True
                     else spec_probe env opts rp)"
    using n_no c_yes by (cases n; cases c) auto
  finally show ?thesis
    using n c by simp
qed

text \<open>
  Claim C2. \<^verbatim>\<open>locatePathSync\<close> scans the candidates in list order and returns the first
  one that matches, or absent when none does; what it returns is the candidate as the
  caller wrote it, not the resolved path. The code is compared with the scan written from
  the spec: the two give the same result and leave the same module state, for every
  environment, candidate list, options and starting state. With a valid type selector
  the call does not fail; when it returns absent, no candidate matches; when it returns a
  value, that is the element at some index \<open>i\<close> of the list, it matches, and no candidate
  at a lower index does. Whether the candidate at an index matches is \<open>spec_matches_at\<close>:
  the answer of the negative cache when it says no, else the answer of the positive cache
  when it has one, else the outcome of the probe of the resolved path, in the state left
  by the checks of the candidates before it.
\<close>

theorem locatePathSync_first_match:
  "locatePathSync env paths opts w = spec_locateSync env paths opts w \<and>
   (valid_type (type opts) \<longrightarrow>
      (case fst (locatePathSync env paths opts w) of
         Inl err \<Rightarrow> False
       | Inr None \<Rightarrow> (\<forall>i<length paths. \<not> spec_matches_at env opts paths w i)
       | Inr (Some found) \<Rightarrow>
           (\<exists>i<length paths. found = paths ! i \<and> spec_matches_at env opts paths w i \<and>
              (\<forall>j<i. \<not> spec_matches_at env opts paths w j))))"
proof (intro conjI impI)
  show "locatePathSync env paths opts w = spec_locateSync env paths opts w"
    by (rule locatePathSync_refines_spec)
next
  assume v: "valid_type (type opts)"
  let ?P = "spec_matches_at env opts paths w"
  show "case fst (locatePathSync env paths opts w) of
          Inl err \<Rightarrow> False
        | Inr None \<Rightarrow> (\<forall>i<length paths. \<not> ?P i)
        | Inr (Some found) \<Rightarrow>
            (\<exists>i<length paths. found = paths ! i \<and> ?P i \<and> (\<forall>j<i. \<not> ?P j))"
  proof (cases "find ?P [0..<length paths]")
    case None
    then have "fst (locatePathSync env paths opts w) = Inr None"
      by (simp add: locatePathSync_refines_spec spec_locateSync_def v)
    moreover have "\<forall>i<length paths. \<not> ?P i"
      using None unfolding find_upt_None .
    ultimately show ?thesis by simp
  next
    case (Some i)
    then have "fst (locatePathSync env paths opts w) = Inr (Some (paths ! i))"
      by (simp add: locatePathSync_refines_spec spec_locateSync_def v)
    moreover have "i < length paths \<and> ?P i \<and> (\<forall>j<i. \<not> ?P j)"
      using Some unfolding find_upt_Some .
    ultimately show ?thesis by auto
  qed
qed

theorem locatePathSync_first_match_witness:
  "valid_type (type opts1) \<and>
   locatePathSync env1 [''a'', ''b'', ''dir''] opts1 initial_world
     = spec_locateSync env1 [''a'', ''b'', ''dir''] opts1 initial_world \<and>
   fst (locatePathSync env1 [''a'', ''b'', ''dir''] opts1 initial_world) = Inr (Some ''b'') \<and>
   (\<exists>i<length [''a'', ''b'', ''dir''].
      ''b'' = [''a'', ''b'', ''dir''] ! i \<and>
      spec_matches_at env1 opts1 [''a'', ''b'', ''dir''] initial_world i \<and>
      (\<forall>j<i. \<not> spec_matches_at env1 opts1 [''a'', ''b'', ''dir''] initial_world j))"
proof -
  have v: "valid_type (type opts1)"
    by (simp add: opts1_def default_options_def valid_type_def)
  have r: "fst (locatePathSync env1 [''a'', ''b'', ''dir''] opts1 initial_world) = Inr (Some ''b'')"
    by code_simp
  show ?thesis
    using locatePathSync_first_match
        [where env = env1 and paths = "[''a'', ''b'', ''dir'']" and opts = opts1
           and w = initial_world] v r
    by simp
qed

end
